theory Spec2Isabelle
  imports Main "HOL-Library.Word"
begin

unbundle bit_operations_syntax

section \<open>Data model of \<^verbatim>\<open>shared/hash.c\<close>\<close>

text \<open>
  Memory is modelled by value. A pointer is an address (\<open>0\<close> is \<open>NULL\<close>). A key is a
  \<^verbatim>\<open>const char *\<close>: the address the caller passed together with the bytes of the C string
  stored there (the bytes before the terminating NUL), which the caller keeps alive and
  unchanged while the pair is in the table. The value is an opaque \<^verbatim>\<open>void *\<close>.

  The \<^verbatim>\<open>unsigned int\<close> fields \<open>count\<close>, \<open>step\<close>, \<open>n_buckets\<close>, \<open>used\<close> and \<open>total\<close> are
  natural numbers: they count allocated slots of 16 bytes each, and none of the claims
  concerns a table holding \<open>2 ^ 32\<close> entries. The digest and the bucket mask are computed
  in 32-bit words, where the wrap-around matters.
\<close>

type_synonym byte = "8 word"
type_synonym uint = "32 word"
type_synonym ptr = nat
type_synonym cstr = "ptr \<times> byte list"

record hash_entry =
  key :: cstr
  "value" :: ptr

text \<open>
  \<open>entries\<close> is \<open>None\<close> for a \<open>NULL\<close> pointer and otherwise the allocated array, one list
  element per slot; only the first \<open>used\<close> slots are live.
\<close>

record hash_bucket =
  entries :: "hash_entry list option"
  used :: nat
  total :: nat

record hash =
  count :: nat
  step :: nat
  n_buckets :: nat
  free_value :: ptr
  buckets :: "hash_bucket list"

datatype errno = ENOMEM | EEXIST | ENOENT

section \<open>The digest\<close>

definition byte_at :: "byte list \<Rightarrow> nat \<Rightarrow> byte" where
  \<comment> \<open>\<^verbatim>\<open>key[i]\<close> as a raw byte; index \<open>length key\<close> is the terminating NUL\<close>
  "byte_at ks i = (if i < length ks then ks ! i else 0)"

definition get_unaligned :: "byte list \<Rightarrow> 16 word" where
  \<comment> \<open>Modelled from the spec: the macro \<^verbatim>\<open>get_unaligned\<close> of \<^verbatim>\<open>shared/util.h\<close>, applied to a
      \<^verbatim>\<open>uint16_t *\<close>: a 16-bit read at any byte offset, the word assembled little-endian
      from two consecutive bytes.\<close>
  "get_unaligned ks = ucast (byte_at ks 0) OR push_bit 8 (ucast (byte_at ks 1))"

definition char_to_int :: "bool \<Rightarrow> byte \<Rightarrow> uint" where
  \<comment> \<open>the value of a \<^verbatim>\<open>char\<close> after integer promotion, converted to \<^verbatim>\<open>unsigned int\<close>;
      whether plain \<^verbatim>\<open>char\<close> is signed is fixed by the target ABI (signed on x86,
      unsigned on ARM and PowerPC)\<close>
  "char_to_int char_signed b = (if char_signed then scast b else ucast b)"

fun main_loop :: "nat \<Rightarrow> byte list \<Rightarrow> uint \<Rightarrow> byte list \<times> uint" where
  "main_loop 0 ks hash = (ks, hash)"
| "main_loop (Suc len) ks hash =
     (let hash = hash + ucast (get_unaligned ks);
          tmp = push_bit 11 (ucast (get_unaligned (drop 2 ks))) XOR hash;
          hash = push_bit 16 hash XOR tmp;
          ks = drop 4 ks;
          hash = hash + drop_bit 11 hash
      in main_loop len ks hash)"

definition end_cases :: "bool \<Rightarrow> uint \<Rightarrow> byte list \<Rightarrow> uint \<Rightarrow> uint" where
  "end_cases char_signed rem ks hash =
     (if rem = 3 then
        (let hash = hash + ucast (get_unaligned ks);
             hash = hash XOR push_bit 16 hash;
             hash = hash XOR push_bit 18 (char_to_int char_signed (byte_at ks 2));
             hash = hash + drop_bit 11 hash
         in hash)
      else if rem = 2 then
        (let hash = hash + ucast (get_unaligned ks);
             hash = hash XOR push_bit 11 hash;
             hash = hash + drop_bit 17 hash
         in hash)
      else if rem = 1 then
        (let hash = hash + char_to_int char_signed (byte_at ks 0);
             hash = hash XOR push_bit 10 hash;
             hash = hash + drop_bit 1 hash
         in hash)
      else hash)"

definition avalanche :: "uint \<Rightarrow> uint" where
  "avalanche hash0 =
     (let hash = hash0 XOR push_bit 3 hash0;
          hash = hash + drop_bit 5 hash;
          hash = hash XOR push_bit 4 hash;
          hash = hash + drop_bit 17 hash;
          hash = hash XOR push_bit 25 hash;
          hash = hash + drop_bit 6 hash
      in hash)"

definition hash_superfast :: "bool \<Rightarrow> byte list \<Rightarrow> uint \<Rightarrow> uint" where
  "hash_superfast char_signed ks len0 =
     (let hash = len0;
          rem = len0 AND 3;
          len = len0 div 4;
          (ks, hash) = main_loop (unat len) ks hash;
          hash = end_cases char_signed rem ks hash
      in avalanche hash)"

definition strlen :: "byte list \<Rightarrow> uint" where
  \<comment> \<open>\<^verbatim>\<open>unsigned int keylen = strlen(key)\<close>\<close>
  "strlen ks = word_of_nat (length ks)"

subsection \<open>The digest as the specification words it\<close>

definition le16 :: "byte \<Rightarrow> byte \<Rightarrow> uint" where
  "le16 b0 b1 = word_of_nat (unat b0 + 256 * unat b1)"

definition spec_chunk :: "uint \<Rightarrow> uint \<Rightarrow> uint \<Rightarrow> uint" where
  "spec_chunk h w0 w1 =
     (let h1 = h + w0;
          tmp = push_bit 11 w1 XOR h1;
          h2 = push_bit 16 h1 XOR tmp
      in h2 + drop_bit 11 h2)"

fun spec_mix :: "uint \<Rightarrow> byte list \<Rightarrow> uint" where
  "spec_mix h (b0 # b1 # b2 # b3 # bs) = spec_mix (spec_chunk h (le16 b0 b1) (le16 b2 b3)) bs"
| "spec_mix h [b0, b1, b2] =
     (let h1 = h + le16 b0 b1;
          h2 = h1 XOR push_bit 16 h1;
          h3 = h2 XOR push_bit 18 (word_of_nat (unat b2))
      in h3 + drop_bit 11 h3)"
| "spec_mix h [b0, b1] =
     (let h1 = h + le16 b0 b1;
          h2 = h1 XOR push_bit 11 h1
      in h2 + drop_bit 17 h2)"
| "spec_mix h [b0] =
     (let h1 = h + word_of_nat (unat b0);
          h2 = h1 XOR push_bit 10 h1
      in h2 + drop_bit 1 h2)"
| "spec_mix h [] = h"

definition spec_avalanche :: "uint \<Rightarrow> uint" where
  "spec_avalanche h0 =
     (let h1 = h0 XOR push_bit 3 h0;
          h2 = h1 + drop_bit 5 h1;
          h3 = h2 XOR push_bit 4 h2;
          h4 = h3 + drop_bit 17 h3;
          h5 = h4 XOR push_bit 25 h4
      in h5 + drop_bit 6 h5)"

definition spec_digest :: "byte list \<Rightarrow> uint" where
  "spec_digest bs = spec_avalanche (spec_mix (word_of_nat (length bs)) bs)"

section \<open>The table\<close>

abbreviation (input) NULL :: ptr where
  "NULL \<equiv> 0"

fun strcmp :: "byte list \<Rightarrow> byte list \<Rightarrow> int" where
  \<comment> \<open>byte-wise comparison as \<^verbatim>\<open>unsigned char\<close>; the lists hold the bytes before the NUL, so
      a proper prefix compares smaller. Only the sign of the result is fixed by C.\<close>
  "strcmp [] [] = 0"
| "strcmp [] (y # ys) = - 1"
| "strcmp (x # xs) [] = 1"
| "strcmp (x # xs) (y # ys) = (if x < y then - 1 else if y < x then 1 else strcmp xs ys)"

definition array_of :: "hash_entry list option \<Rightarrow> hash_entry list" where
  "array_of p = (case p of None \<Rightarrow> [] | Some es \<Rightarrow> es)"

definition indeterminate :: hash_entry where
  \<comment> \<open>stands for the content of a slot that \<^verbatim>\<open>realloc\<close> has not initialised; no function of
      this file reads such a slot before writing it\<close>
  "indeterminate = \<lparr>key = (NULL, []), value = NULL\<rparr>"

definition realloc :: "bool \<Rightarrow> hash_entry list option \<Rightarrow> nat \<Rightarrow> hash_entry list option" where
  \<comment> \<open>\<^verbatim>\<open>realloc(p, n * sizeof(struct hash_entry))\<close>; \<open>ok\<close> says whether the allocator has the
      memory. \<open>None\<close> is the \<open>NULL\<close> of a failure, which leaves the old array as it was.\<close>
  "realloc ok p n =
     (if ok then Some (take n (array_of p) @ replicate (n - length (array_of p)) indeterminate)
      else None)"

definition memmove :: "hash_entry list \<Rightarrow> nat \<Rightarrow> nat \<Rightarrow> nat \<Rightarrow> hash_entry list" where
  \<comment> \<open>\<^verbatim>\<open>memmove(es + dst, es + src, n * sizeof(struct hash_entry))\<close> inside one array\<close>
  "memmove es dst src n = take dst es @ take n (drop src es) @ drop (dst + n) es"

definition bucket_pos :: "bool \<Rightarrow> hash \<Rightarrow> byte list \<Rightarrow> nat" where
  "bucket_pos char_signed h ks =
     (let keylen = strlen ks;
          hashval = hash_superfast char_signed ks keylen
      in unat (hashval AND (word_of_nat (n_buckets h) - 1)))"

fun align_power2 :: "nat \<Rightarrow> nat" where
  \<comment> \<open>Modelled from the spec: \<^verbatim>\<open>align_power2\<close> of \<^verbatim>\<open>shared/util.h\<close>, the smallest power of
      two that is at least the requested count, 1 for a request of 0.\<close>
  "align_power2 u = (if u \<le> 1 then 1 else 2 * align_power2 ((u + 1) div 2))"

declare align_power2.simps [simp del]

definition hash_new :: "bool \<Rightarrow> nat \<Rightarrow> ptr \<Rightarrow> hash option" where
  \<comment> \<open>\<open>None\<close> is the \<open>NULL\<close> returned when \<^verbatim>\<open>calloc\<close> fails\<close>
  "hash_new alloc_ok n fv =
     (let n = align_power2 n in
      if \<not> alloc_ok then None
      else
        (let stp = n div 32;
             stp = (if stp < 4 then 4 else if stp > 64 then 64 else stp)
         in Some \<lparr>count = 0, step = stp, n_buckets = n, free_value = fv,
                  buckets = replicate n \<lparr>entries = None, used = 0, total = 0\<rparr>\<rparr>))"

definition hash_free :: "hash \<Rightarrow> ptr list" where
  \<comment> \<open>the values handed to \<open>free_value\<close>, in call order\<close>
  "hash_free h =
     concat (map (\<lambda>b. if free_value h \<noteq> NULL \<and> used b \<noteq> 0
                        then map value (take (used b) (array_of (entries b))) else [])
                 (take (n_buckets h) (buckets h)))"

text \<open>
  The capacity check at the head of \<open>hash_add\<close> and of \<open>hash_add_unique\<close> (the same block
  in both); \<open>None\<close> is the failed \<^verbatim>\<open>realloc\<close>.
\<close>

definition grow_bucket :: "bool \<Rightarrow> nat \<Rightarrow> hash_bucket \<Rightarrow> hash_bucket option" where
  "grow_bucket alloc_ok stp b =
     (if used b + 1 \<ge> total b then
        (let new_total = total b + stp in
         case realloc alloc_ok (entries b) new_total of
           None \<Rightarrow> None
         | Some tmp \<Rightarrow> Some (b\<lparr>entries := Some tmp, total := new_total\<rparr>))
      else Some b)"

text \<open>
  The scan of both insert functions: where the \<^verbatim>\<open>for\<close> loop leaves \<open>entry\<close>, and why.
\<close>

datatype scan = Equal nat | Less nat | End nat

function scan_entries :: "byte list \<Rightarrow> hash_entry list \<Rightarrow> nat \<Rightarrow> nat \<Rightarrow> scan" where
  "scan_entries ks es i entry_end =
     (if i < entry_end then
        (let c = strcmp ks (snd (key (es ! i))) in
         if c = 0 then Equal i
         else if c < 0 then Less i
         else scan_entries ks es (i + 1) entry_end)
      else End i)"
  by pat_completeness auto
termination
  by (relation "measure (\<lambda>(ks, es, i, entry_end). entry_end - i)") auto

declare scan_entries.simps [simp del]

type_synonym 'r outcome = "'r \<times> hash \<times> ptr list"

definition hash_add :: "bool \<Rightarrow> bool \<Rightarrow> hash \<Rightarrow> cstr \<Rightarrow> ptr \<Rightarrow> (errno + unit) outcome" where
  \<comment> \<open>the result is the return code, the table afterwards and the values handed to
      \<open>free_value\<close>\<close>
  "hash_add char_signed alloc_ok h k v =
     (let pos = bucket_pos char_signed h (snd k);
          bucket0 = buckets h ! pos
      in case grow_bucket alloc_ok (step h) bucket0 of
           None \<Rightarrow> (Inl ENOMEM, h, [])
         | Some bucket \<Rightarrow>
             (let es = array_of (entries bucket) in
              case scan_entries (snd k) es 0 (used bucket) of
                Equal i \<Rightarrow>
                  (Inr (),
                   h\<lparr>buckets := (buckets h)[pos :=
                        bucket\<lparr>entries := Some (es[i := \<lparr>key = k, value = v\<rparr>])\<rparr>]\<rparr>,
                   if free_value h \<noteq> NULL then [value (es ! i)] else [])
              | Less i \<Rightarrow>
                  (let es = memmove es (i + 1) i (used bucket - i) in
                   (Inr (),
                    h\<lparr>count := count h + 1,
                      buckets := (buckets h)[pos :=
                        bucket\<lparr>entries := Some (es[i := \<lparr>key = k, value = v\<rparr>]),
                               used := used bucket + 1\<rparr>]\<rparr>,
                    []))
              | End i \<Rightarrow>
                  (Inr (),
                   h\<lparr>count := count h + 1,
                     buckets := (buckets h)[pos :=
                       bucket\<lparr>entries := Some (es[i := \<lparr>key = k, value = v\<rparr>]),
                              used := used bucket + 1\<rparr>]\<rparr>,
                   [])))"

definition hash_add_unique ::
    "bool \<Rightarrow> bool \<Rightarrow> hash \<Rightarrow> cstr \<Rightarrow> ptr \<Rightarrow> (errno + unit) outcome" where
  "hash_add_unique char_signed alloc_ok h k v =
     (let pos = bucket_pos char_signed h (snd k);
          bucket0 = buckets h ! pos
      in case grow_bucket alloc_ok (step h) bucket0 of
           None \<Rightarrow> (Inl ENOMEM, h, [])
         | Some bucket \<Rightarrow>
             (let es = array_of (entries bucket) in
              case scan_entries (snd k) es 0 (used bucket) of
                Equal i \<Rightarrow> (Inl EEXIST, h\<lparr>buckets := (buckets h)[pos := bucket]\<rparr>, [])
              | Less i \<Rightarrow>
                  (let es = memmove es (i + 1) i (used bucket - i) in
                   (Inr (),
                    h\<lparr>count := count h + 1,
                      buckets := (buckets h)[pos :=
                        bucket\<lparr>entries := Some (es[i := \<lparr>key = k, value = v\<rparr>]),
                               used := used bucket + 1\<rparr>]\<rparr>,
                    []))
              | End i \<Rightarrow>
                  (Inr (),
                   h\<lparr>count := count h + 1,
                     buckets := (buckets h)[pos :=
                       bucket\<lparr>entries := Some (es[i := \<lparr>key = k, value = v\<rparr>]),
                              used := used bucket + 1\<rparr>]\<rparr>,
                   [])))"

text \<open>
  \<^verbatim>\<open>bsearch\<close> of the C library with \<open>hash_entry_cmp\<close> as comparison: the search interval
  \<open>[l, u)\<close> is halved until the key is found or the interval is empty.
\<close>

definition hash_entry_cmp :: "hash_entry \<Rightarrow> hash_entry \<Rightarrow> int" where
  "hash_entry_cmp a b = strcmp (snd (key a)) (snd (key b))"

function bsearch :: "hash_entry \<Rightarrow> hash_entry list \<Rightarrow> nat \<Rightarrow> nat \<Rightarrow> nat option" where
  "bsearch se base l u =
     (if l < u then
        (let idx = (l + u) div 2;
             c = hash_entry_cmp se (base ! idx)
         in if c < 0 then bsearch se base l idx
            else if c > 0 then bsearch se base (idx + 1) u
            else Some idx)
      else None)"
  by pat_completeness auto
termination
  by (relation "measure (\<lambda>(se, base, l, u). u - l)") auto

declare bsearch.simps [simp del]

definition hash_find :: "bool \<Rightarrow> hash \<Rightarrow> cstr \<Rightarrow> ptr outcome" where
  \<comment> \<open>the table is \<^verbatim>\<open>const\<close>: it comes back as it went in, and nothing is freed\<close>
  "hash_find char_signed h k =
     (let pos = bucket_pos char_signed h (snd k);
          bucket = buckets h ! pos;
          se = \<lparr>key = k, value = NULL\<rparr>
      in if entries bucket = None then (NULL, h, [])
         else
           (case bsearch se (array_of (entries bucket)) 0 (used bucket) of
              None \<Rightarrow> (NULL, h, [])
            | Some i \<Rightarrow> (value (array_of (entries bucket) ! i), h, [])))"

text \<open>
  The shrink policy at the end of \<open>hash_del\<close>; a failed \<^verbatim>\<open>realloc\<close> leaves the bucket as it
  is.
\<close>

definition shrink_bucket :: "bool \<Rightarrow> nat \<Rightarrow> hash_bucket \<Rightarrow> hash_bucket" where
  "shrink_bucket alloc_ok stp bucket =
     (let steps_used = used bucket div stp;
          steps_total = total bucket div stp
      in if steps_used + 1 < steps_total then
           (case realloc alloc_ok (entries bucket) ((steps_used + 1) * stp) of
              Some tmp \<Rightarrow> bucket\<lparr>entries := Some tmp, total := (steps_used + 1) * stp\<rparr>
            | None \<Rightarrow> bucket)
         else bucket)"

definition hash_del :: "bool \<Rightarrow> bool \<Rightarrow> hash \<Rightarrow> cstr \<Rightarrow> (errno + unit) outcome" where
  "hash_del char_signed alloc_ok h k =
     (let pos = bucket_pos char_signed h (snd k);
          bucket = buckets h ! pos;
          se = \<lparr>key = k, value = NULL\<rparr>
      in if entries bucket = None then (Inl ENOENT, h, [])
         else
           (case bsearch se (array_of (entries bucket)) 0 (used bucket) of
              None \<Rightarrow> (Inl ENOENT, h, [])
            | Some i \<Rightarrow>
                (let es = array_of (entries bucket);
                     freed = (if free_value h \<noteq> NULL then [value (es ! i)] else []);
                     es = memmove es i (i + 1) (used bucket - i - 1);
                     bucket = bucket\<lparr>entries := Some es, used := used bucket - 1\<rparr>;
                     bucket = shrink_bucket alloc_ok (step h) bucket
                 in (Inr (), h\<lparr>count := count h - 1, buckets := (buckets h)[pos := bucket]\<rparr>,
                     freed))))"

definition hash_get_count :: "hash \<Rightarrow> nat" where
  "hash_get_count h = count h"

subsection \<open>The cursor\<close>

text \<open>
  Modelled from the spec: \<^verbatim>\<open>struct hash_iter\<close> of \<^verbatim>\<open>shared/hash.h\<close>, which is not among the
  sources: a cursor that holds a bucket index and an entry index; the table it points to
  is passed alongside. \<open>hash_iter_init\<close> stores \<open>-1\<close> in \<open>entry\<close> and \<open>hash_iter_next\<close>
  increments it before comparing it, so the first comparison sees \<open>0\<close>; the field is an
  integer here for that one value.
\<close>

record hash_iter =
  bucket :: nat
  entry :: int

definition hash_iter_init :: "hash \<Rightarrow> hash_iter" where
  "hash_iter_init h = \<lparr>bucket = 0, entry = - 1\<rparr>"

function next_used_bucket :: "hash \<Rightarrow> nat \<Rightarrow> nat" where
  \<comment> \<open>the \<^verbatim>\<open>for\<close> loop of \<open>hash_iter_next\<close>, from its start value on\<close>
  "next_used_bucket h i =
     (if i < n_buckets h then
        (if used (buckets h ! i) > 0 then i else next_used_bucket h (i + 1))
      else i)"
  by pat_completeness auto
termination
  by (relation "measure (\<lambda>(h, i). n_buckets h - i)") auto

declare next_used_bucket.simps [simp del]

definition hash_iter_next :: "hash \<Rightarrow> hash_iter \<Rightarrow> (cstr \<times> ptr) option \<times> hash_iter" where
  \<comment> \<open>\<open>None\<close> is the \<^verbatim>\<open>false\<close> of the end; otherwise the pair stored through \<open>key\<close> and
      \<open>value\<close>\<close>
  "hash_iter_next h it0 =
     (let b = buckets h ! bucket it0;
          it = it0\<lparr>entry := entry it0 + 1\<rparr>
      in if entry it \<ge> int (used b) then
           (let it = it\<lparr>entry := 0\<rparr>;
                it = it\<lparr>bucket := next_used_bucket h (bucket it + 1)\<rparr>
            in if bucket it \<ge> n_buckets h then (None, it)
               else
                 (let e = array_of (entries (buckets h ! bucket it)) ! nat (entry it)
                  in (Some (key e, value e), it)))
         else
           (let e = array_of (entries b) ! nat (entry it)
            in (Some (key e, value e), it)))"

text \<open>A full traversal: \<open>hash_iter_next\<close> is called until it returns \<^verbatim>\<open>false\<close>.\<close>

function iterate :: "hash \<Rightarrow> hash_iter \<Rightarrow> (cstr \<times> ptr) list" where
  "iterate h it =
     (case hash_iter_next h it of
        (None, it') \<Rightarrow> []
      | (Some kv, it') \<Rightarrow> kv # iterate h it')"
  by pat_completeness auto
termination
proof (relation "inv_image (less_than <*lex*> less_than)
         (\<lambda>(h, it). (n_buckets h - bucket it,
                      nat (int (used (buckets h ! bucket it)) - entry it)))")
  show "wf (inv_image (less_than <*lex*> less_than)
         (\<lambda>(h, it). (n_buckets h - bucket it,
                      nat (int (used (buckets h ! bucket it)) - entry it))))"
    by (intro wf_inv_image wf_lex_prod wf_less_than)
next
  fix h :: hash and it x y kv
  assume r: "(x, y) = hash_iter_next h it" and x: "x = Some kv"
  show "((h, y), (h, it)) \<in> inv_image (less_than <*lex*> less_than)
         (\<lambda>(h, it). (n_buckets h - bucket it,
                      nat (int (used (buckets h ! bucket it)) - entry it)))"
  proof (cases "entry it + 1 \<ge> int (used (buckets h ! bucket it))")
    case True
    have next_used_bucket_ge: "i \<le> next_used_bucket g i" for g i
    proof (induction g i rule: next_used_bucket.induct)
      case (1 h i)
      show ?case
      proof (cases "i < n_buckets h \<and> \<not> used (buckets h ! i) > 0")
        case True
        then have "next_used_bucket h i = next_used_bucket h (i + 1)"
          by (subst next_used_bucket.simps) simp
        moreover have "i + 1 \<le> next_used_bucket h (i + 1)" using 1 True by simp
        ultimately show ?thesis by simp
      next
        case False
        then have "next_used_bucket h i = i"
          by (subst next_used_bucket.simps) auto
        then show ?thesis by simp
      qed
    qed
    from True have y: "bucket y = next_used_bucket h (bucket it + 1)" and "bucket y < n_buckets h"
      using r [symmetric] x by (auto simp: hash_iter_next_def Let_def split: if_splits)
    then have "n_buckets h - bucket y < n_buckets h - bucket it"
      using next_used_bucket_ge [of "bucket it + 1" h] by simp
    then show ?thesis by simp
  next
    case False
    then have "bucket y = bucket it" and "entry y = entry it + 1"
      using r [symmetric] x by (auto simp: hash_iter_next_def Let_def split: if_splits)
    then show ?thesis using False by simp
  qed
qed

declare iterate.simps [simp del]

section \<open>Well-formed tables\<close>

definition live :: "hash_bucket \<Rightarrow> hash_entry list" where
  \<comment> \<open>the first \<open>used\<close> slots of the array\<close>
  "live b = take (used b) (array_of (entries b))"

definition key_lt :: "hash_entry \<Rightarrow> hash_entry \<Rightarrow> bool" where
  "key_lt a b = (hash_entry_cmp a b < 0)"

definition is_power2 :: "nat \<Rightarrow> bool" where
  "is_power2 n = (\<exists>k \<in> {0..n}. n = 2 ^ k)"

definition bucket_inv :: "bool \<Rightarrow> hash \<Rightarrow> nat \<Rightarrow> hash_bucket \<Rightarrow> bool" where
  \<comment> \<open>the array has \<open>total\<close> slots, a bucket that holds an entry keeps a spare slot, the live
      entries ascend strictly, and each of them hashes to this bucket\<close>
  "bucket_inv char_signed h i b =
     (length (array_of (entries b)) = total b \<and>
      (used b = 0 \<or> used b < total b) \<and>
      sorted_wrt key_lt (live b) \<and>
      list_all (\<lambda>e. bucket_pos char_signed h (snd (key e)) = i) (live b))"

definition hash_inv :: "bool \<Rightarrow> hash \<Rightarrow> bool" where
  "hash_inv char_signed h =
     (n_buckets h = length (buckets h) \<and>
      is_power2 (n_buckets h) \<and>
      4 \<le> step h \<and> step h \<le> 64 \<and>
      count h = sum_list (map used (buckets h)) \<and>
      (\<forall>i \<in> {0..<n_buckets h}. bucket_inv char_signed h i (buckets h ! i)))"

definition hash_entries :: "hash \<Rightarrow> hash_entry list" where
  \<comment> \<open>the live entries of the table, bucket by bucket\<close>
  "hash_entries h = concat (map live (buckets h))"

definition hash_keys :: "hash \<Rightarrow> byte list list" where
  "hash_keys h = map (\<lambda>e. snd (key e)) (hash_entries h)"

text \<open>
  A table built by \<open>hash_new\<close> and a run of \<open>hash_add\<close> calls, the allocator never failing;
  it supplies the concrete tables on which the theorems below are instantiated.
\<close>

definition build :: "bool \<Rightarrow> nat \<Rightarrow> ptr \<Rightarrow> (cstr \<times> ptr) list \<Rightarrow> hash" where
  "build char_signed n fv kvs =
     fold (\<lambda>(k, v) h. fst (snd (hash_add char_signed True h k v))) kvs
       (the (hash_new True n fv))"

definition key_a :: cstr where "key_a = (100, [0x61])"
definition key_b :: cstr where "key_b = (101, [0x62])"
definition key_c :: cstr where "key_c = (102, [0x63])"
definition key_a2 :: cstr where "key_a2 = (200, [0x61])"

definition table_abc :: hash where
  \<comment> \<open>one bucket, growth step 4, no destructor, holding "a", "b" and "c"\<close>
  "table_abc = build True 1 NULL [(key_a, 1), (key_b, 2), (key_c, 3)]"

definition key_d :: cstr where "key_d = (103, [0x64])"

definition table_abcd :: hash where
  \<comment> \<open>the fourth insertion has grown the bucket to 8 slots\<close>
  "table_abcd = fst (snd (hash_add True True table_abc key_d 4))"

definition table_ab_owned :: hash where
  \<comment> \<open>eight buckets and a destructor at address 7, holding "a" and "b"\<close>
  "table_ab_owned = build True 8 7 [(key_a, 1), (key_b, 2)]"

text \<open>
  The frame of the mutating operations: \<open>h'\<close> differs from \<open>h\<close> at most in \<open>count\<close> and in
  the bucket at \<open>pos\<close>.
\<close>

definition frame :: "hash \<Rightarrow> nat \<Rightarrow> hash \<Rightarrow> bool" where
  "frame h pos h' =
     (n_buckets h' = n_buckets h \<and> step h' = step h \<and> free_value h' = free_value h \<and>
      length (buckets h') = length (buckets h) \<and>
      (\<forall>i. i \<noteq> pos \<longrightarrow> buckets h' ! i = buckets h ! i))"

definition same_view :: "hash \<Rightarrow> hash \<Rightarrow> nat \<Rightarrow> bool" where
  \<comment> \<open>two tables that agree on the scalar fields read by the mutators and on the bucket at
      \<open>pos\<close>; their other buckets and their \<open>count\<close> are arbitrary\<close>
  "same_view h1 h2 pos =
     (n_buckets h2 = n_buckets h1 \<and> step h2 = step h1 \<and> free_value h2 = free_value h1 \<and>
      pos < length (buckets h1) \<and> pos < length (buckets h2) \<and>
      buckets h2 ! pos = buckets h1 ! pos)"

definition same_effect :: "'r outcome \<Rightarrow> 'r outcome \<Rightarrow> nat \<Rightarrow> bool" where
  \<comment> \<open>the same return code, the same values freed, the same bucket at \<open>pos\<close> afterwards\<close>
  "same_effect o1 o2 pos =
     (fst o2 = fst o1 \<and> snd (snd o2) = snd (snd o1) \<and>
      buckets (fst (snd o2)) ! pos = buckets (fst (snd o1)) ! pos)"

text \<open>What the scan of the insert functions establishes when it starts at slot \<open>i\<close>.\<close>

definition scan_post :: "byte list \<Rightarrow> hash_entry list \<Rightarrow> nat \<Rightarrow> nat \<Rightarrow> scan \<Rightarrow> bool" where
  "scan_post ks es i n r =
     (case r of
        Equal j \<Rightarrow> i \<le> j \<and> j < n \<and> snd (key (es ! j)) = ks
          \<and> (\<forall>m. i \<le> m \<and> m < j \<longrightarrow> strcmp ks (snd (key (es ! m))) > 0)
      | Less j \<Rightarrow> i \<le> j \<and> j < n \<and> strcmp ks (snd (key (es ! j))) < 0
          \<and> (\<forall>m. i \<le> m \<and> m < j \<longrightarrow> strcmp ks (snd (key (es ! m))) > 0)
      | End j \<Rightarrow> j = n
          \<and> (\<forall>m. i \<le> m \<and> m < n \<longrightarrow> strcmp ks (snd (key (es ! m))) > 0))"

text \<open>What \<open>bsearch\<close> establishes on the interval \<open>[l, u)\<close> of an ascending array.\<close>

definition bsearch_post ::
    "hash_entry \<Rightarrow> hash_entry list \<Rightarrow> nat \<Rightarrow> nat \<Rightarrow> nat option \<Rightarrow> bool" where
  "bsearch_post se es l u r =
     (case r of
        Some i \<Rightarrow> l \<le> i \<and> i < u \<and> hash_entry_cmp se (es ! i) = 0
      | None \<Rightarrow> (\<forall>m. l \<le> m \<and> m < u \<longrightarrow> hash_entry_cmp se (es ! m) \<noteq> 0))"

definition ascending :: "hash_entry list \<Rightarrow> nat \<Rightarrow> bool" where
  "ascending es n = (\<forall>i j. i < j \<and> j < n \<longrightarrow> key_lt (es ! i) (es ! j))"

text \<open>The tables that \<open>hash_new\<close> and the three mutating operations can produce.\<close>

inductive reachable :: "bool \<Rightarrow> hash \<Rightarrow> bool" for char_signed :: bool where
  created: "hash_new True n fv = Some h \<Longrightarrow> reachable char_signed h"
| added: "reachable char_signed h \<Longrightarrow> hash_add char_signed ok h k v = (r, h', freed)
          \<Longrightarrow> reachable char_signed h'"
| added_unique:
    "reachable char_signed h \<Longrightarrow> hash_add_unique char_signed ok h k v = (r, h', freed)
     \<Longrightarrow> reachable char_signed h'"
| deleted: "reachable char_signed h \<Longrightarrow> hash_del char_signed ok h k = (r, h', freed)
            \<Longrightarrow> reachable char_signed h'"

section \<open>Properties of the digest\<close>

lemma of_nat_unat_ucast: "(word_of_nat (unat (b :: byte)) :: uint) = ucast b"
  by (simp add: unsigned_of_nat flip: unsigned_of_nat) 

lemma le16_sum: "le16 b0 b1 = ucast b0 + push_bit 8 (ucast b1)"
proof -
  have "le16 b0 b1 = word_of_nat (unat b0) + 256 * word_of_nat (unat b1)"
    unfolding le16_def by (simp only: of_nat_add of_nat_mult of_nat_numeral)
  also have "\<dots> = ucast b0 + 256 * ucast b1"
    by (simp only: of_nat_unat_ucast)
  also have "\<dots> = ucast b0 + push_bit 8 (ucast b1)"
    by (simp add: push_bit_eq_mult)
  finally show ?thesis .
qed

lemma le16_get_unaligned:
  "(ucast (get_unaligned (b0 # b1 # bs)) :: uint) = le16 b0 b1"
proof -
  have d: "(ucast b0 :: uint) + push_bit 8 (ucast b1) = ucast b0 OR push_bit 8 (ucast b1)"
    by (rule disjunctive_add) (auto simp: bit_simps dest: bit_imp_le_length)
  have "(ucast (get_unaligned (b0 # b1 # bs)) :: uint) = ucast b0 OR push_bit 8 (ucast b1)"
    unfolding get_unaligned_def byte_at_def
    by (rule bit_word_eqI) (auto simp: bit_simps dest: bit_imp_le_length)
  then show ?thesis using d by (simp only: le16_sum)
qed

lemma main_loop_spec:
  "4 * n \<le> length ks \<Longrightarrow>
   fst (main_loop n ks h) = drop (4 * n) ks \<and>
   spec_mix (snd (main_loop n ks h)) (drop (4 * n) ks) = spec_mix h ks"
proof (induction n arbitrary: ks h)
  case 0
  then show ?case by simp
next
  case (Suc n)
  then obtain b0 b1 b2 b3 bs where ks: "ks = b0 # b1 # b2 # b3 # bs"
    by (cases ks; cases "tl ks"; cases "tl (tl ks)"; cases "tl (tl (tl ks))") auto
  have len: "4 * n \<le> length bs" using Suc.prems ks by simp
  have g2: "(ucast (get_unaligned (drop 2 ks)) :: uint) = le16 b2 b3"
    using le16_get_unaligned [of b2 b3 bs] ks by simp
  have g0: "(ucast (get_unaligned ks) :: uint) = le16 b0 b1"
    using le16_get_unaligned [of b0 b1 "b2 # b3 # bs"] ks by simp
  have d4: "drop 4 ks = bs" using ks by simp
  have step: "main_loop (Suc n) ks h = main_loop n bs (spec_chunk h (le16 b0 b1) (le16 b2 b3))"
    unfolding main_loop.simps Let_def g0 g2 d4 spec_chunk_def ..
  have "4 * Suc n = 4 * n + 4" by simp
  then have "drop (4 * Suc n) ks = drop (4 * n) (drop 4 ks)" by (simp only: drop_drop)
  then have dr: "drop (4 * Suc n) ks = drop (4 * n) bs" by (simp only: d4)
  have sm: "spec_mix h ks = spec_mix (spec_chunk h (le16 b0 b1) (le16 b2 b3)) bs"
    using ks by simp
  show ?case
    unfolding step dr sm
    using Suc.IH [OF len, of "spec_chunk h (le16 b0 b1) (le16 b2 b3)"] .
qed


lemma strlen_parts:
  assumes "length ks < 2 ^ 32"
  shows "unat (strlen ks div 4) = length ks div 4"
    and "strlen ks AND 3 = word_of_nat (length ks mod 4)"
proof -
  have u: "unat (strlen ks) = length ks"
    using assms by (simp add: strlen_def unat_of_nat)
  show "unat (strlen ks div 4) = length ks div 4"
    by (simp add: unat_div u)
  have m: "length ks mod 4 < 2 ^ 32"
    using assms by (simp add: less_imp_diff_less mod_less_eq_dividend le_less_trans)
  have "strlen ks AND 3 = strlen ks AND mask 2" by (simp add: mask_eq_exp_minus_1)
  also have "\<dots> = strlen ks mod 4" using word_mod_2p_is_mask [of 2 "strlen ks"] by simp
  also have "\<dots> = word_of_nat (length ks mod 4)"
    using m by (simp add: word_unat_eq_iff unat_mod u unat_of_nat)
  finally show "strlen ks AND 3 = word_of_nat (length ks mod 4)" .
qed

lemma short_list_cases:
  assumes "length (ks :: 'a list) < 4"
  obtains "ks = []" | b0 where "ks = [b0]" | b0 b1 where "ks = [b0, b1]"
    | b0 b1 b2 where "ks = [b0, b1, b2]"
  using assms
  by (cases ks; cases "tl ks"; cases "tl (tl ks)"; cases "tl (tl (tl ks))") auto

lemma char_to_int_plain:
  assumes "char_signed \<longrightarrow> b < 0x80"
  shows "char_to_int char_signed b = word_of_nat (unat b)"
proof (cases char_signed)
  case False
  then show ?thesis by (simp add: char_to_int_def of_nat_unat_ucast)
next
  case True
  then have "b < 0x80" using assms by simp
  then have "b AND mask 7 = b" using less_mask_eq [of b 7] by simp
  then have "bit b 7 = bit (b AND mask 7) 7" by simp
  then have "\<not> bit b 7" by (simp add: bit_simps)
  then have "(scast b :: uint) = ucast b"
  proof (intro bit_word_eqI)
    fix n assume nb: "\<not> bit b 7" and "n < LENGTH(32)"
    show "bit (scast b :: uint) n = bit (ucast b :: uint) n"
    proof (cases "n < 7")
      case True
      then show ?thesis by (simp add: bit_simps min_def)
    next
      case False
      then have "\<not> bit b n" using nb bit_imp_le_length [of b n]
        by (cases "n = 7") auto
      then show ?thesis using False nb by (simp add: bit_simps min_def)
    qed
  qed
  then show ?thesis using True by (simp add: char_to_int_def of_nat_unat_ucast)
qed

lemma end_cases_spec:
  assumes "length ks < 4" and "char_signed \<longrightarrow> odd (length ks) \<longrightarrow> last ks < 0x80"
  shows "end_cases char_signed (word_of_nat (length ks)) ks h = spec_mix h ks"
  using assms(1)
proof (cases ks rule: short_list_cases)
  case 1
  then show ?thesis by (simp add: end_cases_def)
next
  case (2 b0)
  then show ?thesis using assms(2) char_to_int_plain [of char_signed b0]
    by (simp add: end_cases_def byte_at_def)
next
  case (3 b0 b1)
  then show ?thesis using le16_get_unaligned [of b0 b1 "[]"]
    by (simp add: end_cases_def)
next
  case (4 b0 b1 b2)
  then show ?thesis using assms(2) char_to_int_plain [of char_signed b2]
      le16_get_unaligned [of b0 b1 "[b2]"]
    by (simp add: end_cases_def byte_at_def)
qed


lemma avalanche_spec: "avalanche h = spec_avalanche h"
  by (simp add: avalanche_def spec_avalanche_def Let_def)

text \<open>
  Claim C2, as amended. For every byte string whose length fits \<^verbatim>\<open>unsigned int\<close>, the digest
  computed by \<open>hash_superfast\<close> is the digest of the specification's algorithm, provided
  the one byte that the code reads through a plain \<^verbatim>\<open>char\<close> (the byte added for remainder 1,
  the byte shifted by 18 for remainder 3: in both cases the last byte of a string of odd
  length) is below \<open>0x80\<close>, or plain \<^verbatim>\<open>char\<close> is unsigned on the target.
\<close>

theorem hash_superfast_spec_digest:
  assumes len: "length ks < 2 ^ 32"
    and plain: "char_signed \<longrightarrow> odd (length ks) \<longrightarrow> last ks < 0x80"
  shows "hash_superfast char_signed ks (strlen ks) = spec_digest ks"
proof -
  define n where "n = length ks div 4"
  define rest where "rest = drop (4 * n) ks"
  have n4: "4 * n \<le> length ks" by (simp add: n_def)
  have lrest: "length rest = length ks mod 4"
    unfolding rest_def n_def by (simp add: minus_mult_div_eq_mod)
  then have short: "length rest < 4" by simp
  have par: "odd (length rest) = odd (length ks)"
    unfolding lrest by presburger
  have "rest \<noteq> [] \<Longrightarrow> last rest = last ks"
    unfolding rest_def by (simp add: last_drop)
  then have plain': "char_signed \<longrightarrow> odd (length rest) \<longrightarrow> last rest < 0x80"
    using plain par by (cases "rest = []") auto
  obtain ks' h' where ml: "main_loop n ks (strlen ks) = (ks', h')"
    by (cases "main_loop n ks (strlen ks)")
  from main_loop_spec [OF n4, of "strlen ks"] ml
  have ks': "ks' = rest" and h': "spec_mix h' rest = spec_mix (strlen ks) ks"
    by (simp_all add: rest_def)
  have "hash_superfast char_signed ks (strlen ks)
        = avalanche (end_cases char_signed (word_of_nat (length rest)) rest h')"
    using strlen_parts [OF len] ml
    by (simp add: hash_superfast_def Let_def n_def ks' lrest)
  also have "\<dots> = spec_avalanche (spec_mix h' rest)"
    by (simp only: avalanche_spec end_cases_spec [OF short plain'])
  also have "\<dots> = spec_digest ks"
    by (simp only: h' spec_digest_def strlen_def)
  finally show ?thesis .
qed

theorem hash_superfast_spec_digest_witness:
  "length [0x61, 0x62, 0x63, 0x64, 0x65 :: byte] < 2 ^ 32
   \<and> odd (length [0x61, 0x62, 0x63, 0x64, 0x65 :: byte])
   \<and> last [0x61, 0x62, 0x63, 0x64, 0x65 :: byte] < 0x80
   \<and> hash_superfast True [0x61, 0x62, 0x63, 0x64, 0x65] (strlen [0x61, 0x62, 0x63, 0x64, 0x65])
       = spec_digest [0x61, 0x62, 0x63, 0x64, 0x65]"
  using hash_superfast_spec_digest [of "[0x61, 0x62, 0x63, 0x64, 0x65]" True] by simp

text \<open>
  Where plain \<^verbatim>\<open>char\<close> is signed, the one-byte key \<^verbatim>\<open>"\\x80"\<close> is read as \<open>-128\<close>, so
  \<^verbatim>\<open>hash += *key\<close> leaves \<open>0xFFFFFF81\<close> where the specification's rule adds \<open>0x80\<close> to
  the length \<open>1\<close>; the two digests differ.
\<close>

theorem hash_superfast_signed_char_counterexample:
  "hash_superfast True [0x80] (strlen [0x80]) = 0xF30533C4
   \<and> spec_digest [0x80] = 0x5D4C226B
   \<and> hash_superfast True [0x80] (strlen [0x80]) \<noteq> spec_digest [0x80]"
  by code_simp

section \<open>Properties of the table\<close>

lemma strcmp_eq0: "strcmp a b = 0 \<longleftrightarrow> a = b"
  by (induction a b rule: strcmp.induct) auto

lemma strcmp_refl: "strcmp a a = 0"
  by (simp add: strcmp_eq0)

lemma strcmp_sym: "strcmp a b < 0 \<longleftrightarrow> strcmp b a > 0"
  by (induction a b rule: strcmp.induct) auto

lemma strcmp_trans: "strcmp a b < 0 \<Longrightarrow> strcmp b c < 0 \<Longrightarrow> strcmp a c < 0"
proof (induction a b arbitrary: c rule: strcmp.induct)
  case 1
  then show ?case by simp
next
  case (2 y ys)
  then show ?case by (cases c) auto
next
  case (3 x xs)
  then show ?case by simp
next
  case (4 x xs y ys)
  then show ?case by (cases c) (auto split: if_splits)
qed

lemma key_lt_trans: "key_lt a b \<Longrightarrow> key_lt b c \<Longrightarrow> key_lt a c"
  unfolding key_lt_def hash_entry_cmp_def by (rule strcmp_trans)

lemma key_lt_irrefl: "\<not> key_lt a a"
  by (simp add: key_lt_def hash_entry_cmp_def strcmp_refl)

lemma scan_post_shift:
  assumes "scan_post ks es (i + 1) n r" and "strcmp ks (snd (key (es ! i))) > 0"
  shows "scan_post ks es i n r"
proof -
  have pos: "strcmp ks (snd (key (es ! m))) > 0"
    if "i \<le> m" and "m < j"
      and "\<forall>m. i + 1 \<le> m \<and> m < j \<longrightarrow> strcmp ks (snd (key (es ! m))) > 0" for m j
  proof (cases "m = i")
    case True
    then show ?thesis using assms(2) by simp
  next
    case False
    then have "i + 1 \<le> m" using that(1) by simp
    then show ?thesis using that by blast
  qed
  show ?thesis
  proof (cases r)
    case (Equal j)
    then have a: "i + 1 \<le> j" "j < n" "snd (key (es ! j)) = ks"
      "\<forall>m. i + 1 \<le> m \<and> m < j \<longrightarrow> strcmp ks (snd (key (es ! m))) > 0"
      using assms(1) by (simp_all add: scan_post_def)
    have "\<forall>m. i \<le> m \<and> m < j \<longrightarrow> strcmp ks (snd (key (es ! m))) > 0"
      using pos [OF _ _ a(4)] by blast
    then show ?thesis using a Equal by (simp add: scan_post_def)
  next
    case (Less j)
    then have a: "i + 1 \<le> j" "j < n" "strcmp ks (snd (key (es ! j))) < 0"
      "\<forall>m. i + 1 \<le> m \<and> m < j \<longrightarrow> strcmp ks (snd (key (es ! m))) > 0"
      using assms(1) by (simp_all add: scan_post_def)
    have "\<forall>m. i \<le> m \<and> m < j \<longrightarrow> strcmp ks (snd (key (es ! m))) > 0"
      using pos [OF _ _ a(4)] by blast
    then show ?thesis using a Less by (simp add: scan_post_def)
  next
    case (End j)
    then have a: "j = n"
      "\<forall>m. i + 1 \<le> m \<and> m < n \<longrightarrow> strcmp ks (snd (key (es ! m))) > 0"
      using assms(1) by (simp_all add: scan_post_def)
    have "\<forall>m. i \<le> m \<and> m < n \<longrightarrow> strcmp ks (snd (key (es ! m))) > 0"
      using pos [OF _ _ a(2)] by blast
    then show ?thesis using a End by (simp add: scan_post_def)
  qed
qed

lemma scan_entries_end: "\<not> i < n \<Longrightarrow> scan_entries ks es i n = End i"
  by (subst scan_entries.simps) simp

lemma scan_entries_equal:
  "i < n \<Longrightarrow> strcmp ks (snd (key (es ! i))) = 0 \<Longrightarrow> scan_entries ks es i n = Equal i"
  by (subst scan_entries.simps) (simp add: Let_def)

lemma scan_entries_less:
  "i < n \<Longrightarrow> strcmp ks (snd (key (es ! i))) < 0 \<Longrightarrow> scan_entries ks es i n = Less i"
  by (subst scan_entries.simps) (simp add: Let_def)

lemma scan_entries_greater:
  "i < n \<Longrightarrow> strcmp ks (snd (key (es ! i))) > 0
   \<Longrightarrow> scan_entries ks es i n = scan_entries ks es (i + 1) n"
  by (subst scan_entries.simps) (simp add: Let_def)

lemma scan_entries_spec:
  "i \<le> n \<Longrightarrow> scan_post ks es i n (scan_entries ks es i n)"
proof (induction ks es i n rule: scan_entries.induct)
  case (1 ks es i n)
  show ?case
  proof (cases "i < n")
    case False
    then show ?thesis using "1.prems"
      by (simp add: scan_entries_end scan_post_def)
  next
    case True
    define c where "c = strcmp ks (snd (key (es ! i)))"
    consider (eq) "c = 0" | (lt) "c < 0" | (gt) "c > 0" by linarith
    then show ?thesis
    proof cases
      case eq
      then have k: "snd (key (es ! i)) = ks" by (simp add: c_def strcmp_eq0)
      have "scan_entries ks es i n = Equal i"
        using True eq by (intro scan_entries_equal) (simp_all add: c_def)
      then show ?thesis using True k by (simp add: scan_post_def)
    next
      case lt
      have "scan_entries ks es i n = Less i"
        using True lt by (intro scan_entries_less) (simp_all add: c_def)
      then show ?thesis using True lt by (simp add: scan_post_def c_def)
    next
      case gt
      have c0: "c \<noteq> 0" and c1: "\<not> c < 0" using gt by simp_all
      have "scan_post ks es (i + 1) n (scan_entries ks es (i + 1) n)"
      proof (rule "1.IH" [OF True c_def c0 c1])
        show "i + 1 \<le> n" using True by simp
      qed
      then have "scan_post ks es i n (scan_entries ks es (i + 1) n)"
        using gt unfolding c_def by (rule scan_post_shift)
      moreover have "scan_entries ks es i n = scan_entries ks es (i + 1) n"
        using True gt by (intro scan_entries_greater) (simp_all add: c_def)
      ultimately show ?thesis by simp
    qed
  qed
qed

lemma hash_entry_cmp_less_trans:
  "hash_entry_cmp se a < 0 \<Longrightarrow> key_lt a b \<Longrightarrow> hash_entry_cmp se b < 0"
  unfolding key_lt_def hash_entry_cmp_def by (rule strcmp_trans)

lemma hash_entry_cmp_greater_trans:
  assumes "hash_entry_cmp se b > 0" and "key_lt a b"
  shows "hash_entry_cmp se a > 0"
proof -
  have "strcmp (snd (key b)) (snd (key se)) < 0"
    using assms(1) by (simp add: hash_entry_cmp_def strcmp_sym)
  moreover have "strcmp (snd (key a)) (snd (key b)) < 0"
    using assms(2) by (simp add: key_lt_def hash_entry_cmp_def)
  ultimately have "strcmp (snd (key a)) (snd (key se)) < 0"
    using strcmp_trans by blast
  then show ?thesis by (simp add: hash_entry_cmp_def strcmp_sym)
qed

lemma bsearch_empty: "\<not> l < u \<Longrightarrow> bsearch se es l u = None"
  by (subst bsearch.simps) simp

lemma bsearch_found:
  "l < u \<Longrightarrow> hash_entry_cmp se (es ! ((l + u) div 2)) = 0
   \<Longrightarrow> bsearch se es l u = Some ((l + u) div 2)"
  by (subst bsearch.simps) (simp add: Let_def)

lemma bsearch_left:
  "l < u \<Longrightarrow> hash_entry_cmp se (es ! ((l + u) div 2)) < 0
   \<Longrightarrow> bsearch se es l u = bsearch se es l ((l + u) div 2)"
  by (subst bsearch.simps) (simp add: Let_def)

lemma bsearch_right:
  "l < u \<Longrightarrow> hash_entry_cmp se (es ! ((l + u) div 2)) > 0
   \<Longrightarrow> bsearch se es l u = bsearch se es ((l + u) div 2 + 1) u"
  by (subst bsearch.simps) (simp add: Let_def)

lemma bsearch_spec:
  "ascending es n \<Longrightarrow> u \<le> n \<Longrightarrow> bsearch_post se es l u (bsearch se es l u)"
proof (induction se es l u rule: bsearch.induct)
  case (1 se es l u)
  show ?case
  proof (cases "l < u")
    case False
    then show ?thesis by (simp add: bsearch_empty bsearch_post_def)
  next
    case True
    define idx where "idx = (l + u) div 2"
    define c where "c = hash_entry_cmp se (es ! idx)"
    have idx: "l \<le> idx" "idx < u" using True by (simp_all add: idx_def)
    consider (eq) "c = 0" | (lt) "c < 0" | (gt) "c > 0" by linarith
    then show ?thesis
    proof cases
      case eq
      then have "bsearch se es l u = Some idx"
        using True bsearch_found [of l u se es] by (simp add: c_def idx_def)
      then show ?thesis using idx eq by (simp add: bsearch_post_def c_def)
    next
      case lt
      have st: "bsearch se es l u = bsearch se es l idx"
        using True lt bsearch_left [of l u se es] by (simp add: c_def idx_def)
      have "idx \<le> n" using idx "1.prems" by simp
      then have ih: "bsearch_post se es l idx (bsearch se es l idx)"
        using "1.IH"(1) [OF True idx_def c_def _ "1.prems"(1)] lt by simp
      have right: "hash_entry_cmp se (es ! m) \<noteq> 0" if "idx \<le> m" "m < u" for m
      proof (cases "m = idx")
        case True
        then show ?thesis using lt by (simp add: c_def)
      next
        case False
        then have "key_lt (es ! idx) (es ! m)"
          using that "1.prems" by (simp add: ascending_def)
        then have "hash_entry_cmp se (es ! m) < 0"
          using lt hash_entry_cmp_less_trans [of se "es ! idx" "es ! m"] by (simp add: c_def)
        then show ?thesis by simp
      qed
      show ?thesis
      proof (cases "bsearch se es l idx")
        case None
        then have "\<forall>m. l \<le> m \<and> m < idx \<longrightarrow> hash_entry_cmp se (es ! m) \<noteq> 0"
          using ih by (simp add: bsearch_post_def)
        then have "\<forall>m. l \<le> m \<and> m < u \<longrightarrow> hash_entry_cmp se (es ! m) \<noteq> 0"
          using right by (metis not_le_imp_less)
        then show ?thesis using None st by (simp add: bsearch_post_def)
      next
        case (Some i)
        then show ?thesis using ih st idx by (simp add: bsearch_post_def)
      qed
    next
      case gt
      have st: "bsearch se es l u = bsearch se es (idx + 1) u"
        using True gt bsearch_right [of l u se es] by (simp add: c_def idx_def)
      have c1: "\<not> c < 0" using gt by simp
      have ih: "bsearch_post se es (idx + 1) u (bsearch se es (idx + 1) u)"
        using "1.IH"(2) [OF True idx_def c_def c1 _ "1.prems"] gt by simp
      have left: "hash_entry_cmp se (es ! m) \<noteq> 0" if "m \<le> idx" for m
      proof (cases "m = idx")
        case True
        then show ?thesis using gt by (simp add: c_def)
      next
        case False
        then have "key_lt (es ! m) (es ! idx)"
          using that idx "1.prems" by (simp add: ascending_def)
        then have "hash_entry_cmp se (es ! m) > 0"
          using gt hash_entry_cmp_greater_trans [of se "es ! idx" "es ! m"] by (simp add: c_def)
        then show ?thesis by simp
      qed
      show ?thesis
      proof (cases "bsearch se es (idx + 1) u")
        case None
        then have "\<forall>m. idx + 1 \<le> m \<and> m < u \<longrightarrow> hash_entry_cmp se (es ! m) \<noteq> 0"
          using ih by (simp add: bsearch_post_def)
        then have "\<forall>m. l \<le> m \<and> m < u \<longrightarrow> hash_entry_cmp se (es ! m) \<noteq> 0"
          using left by (metis Suc_eq_plus1 not_less_eq_eq)
        then show ?thesis using None st by (simp add: bsearch_post_def)
      next
        case (Some i)
        then show ?thesis using ih st idx by (simp add: bsearch_post_def)
      qed
    qed
  qed
qed

lemma ascending_sorted_wrt:
  "n \<le> length es \<Longrightarrow> ascending es n \<longleftrightarrow> sorted_wrt key_lt (take n es)"
  unfolding ascending_def sorted_wrt_iff_nth_less
  by (auto simp: min_def)

lemma length_memmove:
  "dst + n \<le> length es \<Longrightarrow> src + n \<le> length es \<Longrightarrow> length (memmove es dst src n) = length es"
  by (auto simp: memmove_def min_def)

lemma memmove_zero: "dst \<le> length es \<Longrightarrow> memmove es dst src 0 = es"
  by (simp add: memmove_def)

lemma take_prefix: "length xs = n \<Longrightarrow> take n (xs @ ys) = xs"
  by simp

lemma take_insert:
  assumes "j \<le> n" and "n < length es"
  shows "take (n + 1) ((memmove es (j + 1) j (n - j))[j := e])
         = take j (take n es) @ e # drop j (take n es)"
proof -
  have m: "memmove es (j + 1) j (n - j)
           = take j es @ es ! j # take (n - j) (drop j es) @ drop (n + 1) es"
    using assms by (simp add: memmove_def take_Suc_conv_app_nth)
  have u: "(memmove es (j + 1) j (n - j))[j := e]
        = (take j es @ e # take (n - j) (drop j es)) @ drop (n + 1) es"
    unfolding m using assms by (simp add: list_update_append)
  have l: "length (take j es @ e # take (n - j) (drop j es)) = n + 1"
    using assms by (auto simp: min_def)
  have "take (n + 1) ((memmove es (j + 1) j (n - j))[j := e])
        = take j es @ e # take (n - j) (drop j es)"
    unfolding u using l by (rule take_prefix)
  moreover have "take j (take n es) = take j es" using assms by (simp add: min_def)
  moreover have "drop j (take n es) = take (n - j) (drop j es)" by (simp add: drop_take)
  ultimately show ?thesis by simp
qed

lemma take_append_end:
  assumes "n < length es"
  shows "take (n + 1) (es[n := e]) = take n es @ [e]"
  using assms by (simp add: take_Suc_conv_app_nth)

lemma take_delete:
  assumes "i < n" and "n \<le> length es"
  shows "take (n - 1) (memmove es i (i + 1) (n - i - 1))
         = take i (take n es) @ drop (i + 1) (take n es)"
proof -
  have d: "i + (n - i - 1) = n - 1" using assms by simp
  have u: "memmove es i (i + 1) (n - i - 1)
        = (take i es @ take (n - i - 1) (drop (i + 1) es)) @ drop (n - 1) es"
    unfolding memmove_def d by simp
  have l: "length (take i es @ take (n - i - 1) (drop (i + 1) es)) = n - 1"
    using assms by (auto simp: min_def)
  have "take (n - 1) (memmove es i (i + 1) (n - i - 1))
        = take i es @ take (n - i - 1) (drop (i + 1) es)"
    unfolding u using l by (rule take_prefix)
  moreover have "take i (take n es) = take i es" using assms by (simp add: min_def)
  moreover have "drop (i + 1) (take n es) = take (n - i - 1) (drop (i + 1) es)"
    by (simp add: drop_take)
  ultimately show ?thesis by simp
qed

lemma sorted_wrt_insert:
  assumes "sorted_wrt key_lt xs"
    and "\<forall>m < j. key_lt (xs ! m) e"
    and "j < length xs \<longrightarrow> key_lt e (xs ! j)"
    and "j \<le> length xs"
  shows "sorted_wrt key_lt (take j xs @ e # drop j xs)"
proof -
  have before: "\<forall>x \<in> set (take j xs). key_lt x e"
    using assms(2,4) by (auto simp: in_set_conv_nth)
  have after: "\<forall>y \<in> set (drop j xs). key_lt e y"
  proof
    fix y assume "y \<in> set (drop j xs)"
    then obtain m where m: "m < length xs - j" "y = xs ! (j + m)"
      by (auto simp: in_set_conv_nth)
    then have j: "j < length xs" by simp
    show "key_lt e y"
    proof (cases "m = 0")
      case True
      then show ?thesis using m j assms(3) by simp
    next
      case False
      then have "key_lt (xs ! j) (xs ! (j + m))"
        using assms(1) m by (simp add: sorted_wrt_iff_nth_less)
      then show ?thesis using assms(3) j m key_lt_trans by blast
    qed
  qed
  have split: "sorted_wrt key_lt (take j xs)" "sorted_wrt key_lt (drop j xs)"
    "\<forall>x \<in> set (take j xs). \<forall>y \<in> set (drop j xs). key_lt x y"
    using assms(1) sorted_wrt_append [of key_lt "take j xs" "drop j xs"] by simp_all
  show ?thesis
    using before after split key_lt_trans by (auto simp: sorted_wrt_append)
qed

lemma sorted_wrt_delete:
  assumes "sorted_wrt key_lt xs"
  shows "sorted_wrt key_lt (take i xs @ drop (i + 1) xs)"
proof -
  have "sorted_wrt key_lt (take i xs @ drop i xs)" using assms by simp
  then have a: "sorted_wrt key_lt (take i xs)" "sorted_wrt key_lt (drop i xs)"
    "\<forall>x \<in> set (take i xs). \<forall>y \<in> set (drop i xs). key_lt x y"
    unfolding sorted_wrt_append by simp_all
  have "sorted_wrt key_lt (drop 1 (drop i xs))" using a(2) by (rule sorted_wrt_drop)
  moreover have "set (drop (i + 1) xs) \<subseteq> set (drop i xs)"
    by (metis drop_drop set_drop_subset add.commute)
  ultimately show ?thesis using a by (auto simp: sorted_wrt_append)
qed

lemma live_realloc:
  assumes "n \<le> m" and "n \<le> length (array_of p)"
  shows "take n (array_of (realloc True p m)) = take n (array_of p)"
proof -
  have "array_of (realloc True p m)
        = take m (array_of p) @ replicate (m - length (array_of p)) indeterminate"
    by (simp add: realloc_def array_of_def)
  then show ?thesis using assms by (simp add: min_def)
qed

lemma length_realloc: "length (array_of (realloc True p m)) = m"
  by (simp add: realloc_def array_of_def min_def)

lemma mask_pos_less:
  fixes w :: uint
  shows "unat (w AND (word_of_nat (2 ^ k) - 1)) < 2 ^ k"
proof (cases "k < 32")
  case True
  have "(word_of_nat (2 ^ k) :: uint) - 1 = mask k"
    by (simp add: mask_eq_decr_exp)
  then have "w AND (word_of_nat (2 ^ k) - 1) = take_bit k w"
    by (simp add: take_bit_eq_mask)
  then have "unat (w AND (word_of_nat (2 ^ k) - 1)) = take_bit k (unat w)"
    by (simp add: unsigned_take_bit_eq)
  then show ?thesis by (simp add: take_bit_eq_mod)
next
  case False
  have "unat (w AND (word_of_nat (2 ^ k) - 1)) < 2 ^ 32"
    using unsigned_less [of "w AND (word_of_nat (2 ^ k) - 1)"] by simp
  also have "(2::nat) ^ 32 \<le> 2 ^ k" using False by (intro power_increasing) simp_all
  finally show ?thesis .
qed

lemma bucket_pos_less:
  "is_power2 (n_buckets h) \<Longrightarrow> bucket_pos cs h ks < n_buckets h"
  unfolding is_power2_def bucket_pos_def Let_def
  using mask_pos_less by auto

lemma bucket_pos_cong:
  "n_buckets h' = n_buckets h \<Longrightarrow> bucket_pos cs h' ks = bucket_pos cs h ks"
  by (simp add: bucket_pos_def)

lemma bucket_inv_cong:
  "n_buckets h' = n_buckets h \<Longrightarrow> bucket_inv cs h' i b = bucket_inv cs h i b"
  by (simp add: bucket_inv_def bucket_pos_cong [of h' h])

lemma grow_bucket_None:
  "grow_bucket ok stp b = None \<longleftrightarrow> used b + 1 \<ge> total b \<and> \<not> ok"
  by (simp add: grow_bucket_def Let_def realloc_def)

lemma grow_bucket_Some:
  assumes "grow_bucket ok stp b = Some g"
  shows "used g = used b"
    and "used b + 1 < total b \<Longrightarrow> g = b"
    and "used b + 1 \<ge> total b \<Longrightarrow>
         ok \<and> total g = total b + stp \<and> entries g = realloc True (entries b) (total b + stp)"
    and "total g = (if used b + 1 \<ge> total b then total b + stp else total b)"
  using assms by (auto simp: grow_bucket_def Let_def realloc_def split: if_splits)

lemma grow_bucket_inv:
  assumes inv: "bucket_inv cs h i b" and stp: "4 \<le> stp"
    and g: "grow_bucket ok stp b = Some g"
  shows "bucket_inv cs h i g" and "live g = live b" and "used g + 1 < total g"
    and "length (array_of (entries g)) = total g"
proof -
  have len: "length (array_of (entries b)) = total b"
    and u: "used b = 0 \<or> used b < total b"
    using inv by (simp_all add: bucket_inv_def)
  have ug: "used g = used b" using g by (rule grow_bucket_Some)
  show "live g = live b" and "used g + 1 < total g"
    and "length (array_of (entries g)) = total g" and "bucket_inv cs h i g"
  proof -
    show lg: "live g = live b"
    proof (cases "used b + 1 < total b")
      case True
      then show ?thesis using grow_bucket_Some(2) [OF g] by simp
    next
      case False
      then have e: "entries g = realloc True (entries b) (total b + stp)"
        using grow_bucket_Some(3) [OF g] by simp
      have "used b \<le> total b + stp" "used b \<le> length (array_of (entries b))"
        using u len by auto
      then show ?thesis unfolding live_def ug e by (rule live_realloc)
    qed
    show tg: "used g + 1 < total g"
      using grow_bucket_Some(4) [OF g] ug u stp by (auto split: if_splits)
    show lng: "length (array_of (entries g)) = total g"
    proof (cases "used b + 1 < total b")
      case True
      then show ?thesis using grow_bucket_Some(2) [OF g] len by simp
    next
      case False
      then show ?thesis using grow_bucket_Some(3) [OF g] by (simp add: length_realloc)
    qed
    show "bucket_inv cs h i g"
      using inv lg tg lng by (simp add: bucket_inv_def)
  qed
qed

lemma key_lt_key_eq:
  "snd (key a') = snd (key a) \<Longrightarrow> key_lt a' b = key_lt a b"
  "snd (key b') = snd (key b) \<Longrightarrow> key_lt a b' = key_lt a b"
  by (simp_all add: key_lt_def hash_entry_cmp_def)

lemma sorted_wrt_replace:
  assumes "sorted_wrt key_lt xs" and "i < length xs" and "snd (key e) = snd (key (xs ! i))"
  shows "sorted_wrt key_lt (xs[i := e])"
  unfolding sorted_wrt_iff_nth_less
proof (intro allI impI)
  fix a b assume ab: "a < b" "b < length (xs[i := e])"
  then have lt: "key_lt (xs ! a) (xs ! b)"
    using assms(1) by (simp add: sorted_wrt_iff_nth_less)
  have "key_lt (xs[i := e] ! a) (xs ! b)"
    using lt assms(2,3) ab key_lt_key_eq(1) [of e "xs ! i" "xs ! b"]
    by (cases "a = i") simp_all
  then show "key_lt (xs[i := e] ! a) (xs[i := e] ! b)"
    using assms(2,3) ab key_lt_key_eq(2) [of e "xs ! i" "xs[i := e] ! a"]
    by (cases "b = i") simp_all
qed

lemma scan_grown:
  fixes g :: hash_bucket and k :: cstr and v :: ptr
  defines "new \<equiv> \<lparr>key = k, value = v\<rparr>"
  assumes len: "used g \<le> length (array_of (entries g))"
  shows "scan_entries (snd k) (array_of (entries g)) 0 (used g) = Equal j
         \<Longrightarrow> j < used g \<and> snd (key (live g ! j)) = snd k"
    and "scan_entries (snd k) (array_of (entries g)) 0 (used g) = Less j
         \<Longrightarrow> j < used g \<and> (\<forall>m<j. key_lt (live g ! m) new) \<and> key_lt new (live g ! j)"
    and "scan_entries (snd k) (array_of (entries g)) 0 (used g) = End j
         \<Longrightarrow> j = used g \<and> (\<forall>m<j. key_lt (live g ! m) new)"
proof -
  let ?es = "array_of (entries g)"
  have post: "scan_post (snd k) ?es 0 (used g) (scan_entries (snd k) ?es 0 (used g))"
    by (rule scan_entries_spec) simp
  have lt: "key_lt (live g ! m) new" if "strcmp (snd k) (snd (key (?es ! m))) > 0" "m < used g" for m
    using that by (simp add: key_lt_def hash_entry_cmp_def new_def live_def strcmp_sym)
  show "scan_entries (snd k) ?es 0 (used g) = Equal j
         \<Longrightarrow> j < used g \<and> snd (key (live g ! j)) = snd k"
    using post by (simp add: scan_post_def live_def)
  show "scan_entries (snd k) ?es 0 (used g) = Less j
         \<Longrightarrow> j < used g \<and> (\<forall>m<j. key_lt (live g ! m) new) \<and> key_lt new (live g ! j)"
  proof -
    assume "scan_entries (snd k) ?es 0 (used g) = Less j"
    with post have a: "j < used g" "strcmp (snd k) (snd (key (?es ! j))) < 0"
      "\<forall>m. m < j \<longrightarrow> strcmp (snd k) (snd (key (?es ! m))) > 0"
      by (simp_all add: scan_post_def)
    have "key_lt new (live g ! j)"
      using a(1,2) by (simp add: key_lt_def hash_entry_cmp_def new_def live_def)
    moreover have "\<forall>m<j. key_lt (live g ! m) new" using a(1,3) lt by simp
    ultimately show ?thesis using a(1) by simp
  qed
  show "scan_entries (snd k) ?es 0 (used g) = End j
         \<Longrightarrow> j = used g \<and> (\<forall>m<j. key_lt (live g ! m) new)"
  proof -
    assume "scan_entries (snd k) ?es 0 (used g) = End j"
    with post have a: "j = used g"
      "\<forall>m. m < used g \<longrightarrow> strcmp (snd k) (snd (key (?es ! m))) > 0"
      by (simp_all add: scan_post_def)
    then show ?thesis using lt by simp
  qed
qed

lemma length_live: "used b \<le> length (array_of (entries b)) \<Longrightarrow> length (live b) = used b"
  by (simp add: live_def)

lemma bucket_replace:
  fixes g :: hash_bucket and j :: nat and e :: hash_entry
  defines "g' \<equiv> g\<lparr>entries := Some ((array_of (entries g))[j := e])\<rparr>"
  assumes inv: "bucket_inv cs h i g" and j: "j < used g"
    and k: "snd (key e) = snd (key (live g ! j))"
  shows "live g' = (live g)[j := e]" and "bucket_inv cs h i g'"
    and "used g' = used g" and "total g' = total g"
proof -
  have len: "length (array_of (entries g)) = total g" and u: "used g \<le> total g"
    and srt: "sorted_wrt key_lt (live g)"
    and pos: "list_all (\<lambda>e. bucket_pos cs h (snd (key e)) = i) (live g)"
    using inv by (auto simp: bucket_inv_def)
  have ll: "length (live g) = used g" using len u by (simp add: live_def)
  show l: "live g' = (live g)[j := e]"
    by (simp add: g'_def live_def array_of_def take_update_swap)
  show "used g' = used g" "total g' = total g" by (simp_all add: g'_def)
  have s': "sorted_wrt key_lt (live g')"
    unfolding l using srt j k ll by (intro sorted_wrt_replace) simp_all
  have "bucket_pos cs h (snd (key e)) = i"
    using pos j k ll by (simp add: list_all_length)
  then have p': "list_all (\<lambda>e. bucket_pos cs h (snd (key e)) = i) (live g')"
    unfolding l using pos ll j by (auto simp: list_all_length nth_list_update)
  have "length (array_of (entries g')) = total g'"
    using len by (simp add: g'_def array_of_def)
  then show "bucket_inv cs h i g'"
    using s' p' inv by (simp add: bucket_inv_def g'_def)
qed

lemma bucket_insert_inv:
  assumes inv: "bucket_inv cs h i g" and room: "used g + 1 < total g"
    and l': "live g' = take j (live g) @ e # drop j (live g)"
    and u': "used g' = used g + 1" and t': "total g' = total g"
    and len': "length (array_of (entries g')) = total g"
    and j: "j \<le> used g"
    and before: "\<forall>m<j. key_lt (live g ! m) e"
    and after: "j < used g \<longrightarrow> key_lt e (live g ! j)"
    and p: "bucket_pos cs h (snd (key e)) = i"
  shows "bucket_inv cs h i g'"
proof -
  have len: "length (array_of (entries g)) = total g"
    and srt: "sorted_wrt key_lt (live g)"
    and pos: "list_all (\<lambda>e. bucket_pos cs h (snd (key e)) = i) (live g)"
    using inv by (auto simp: bucket_inv_def)
  have ll: "length (live g) = used g" using len room by (simp add: live_def)
  have s': "sorted_wrt key_lt (live g')"
    unfolding l' using srt before after j ll by (intro sorted_wrt_insert) simp_all
  have "list_all (\<lambda>e. bucket_pos cs h (snd (key e)) = i) (take j (live g))"
    "list_all (\<lambda>e. bucket_pos cs h (snd (key e)) = i) (drop j (live g))"
    using pos by (auto simp: list_all_iff dest: in_set_takeD in_set_dropD)
  then have p': "list_all (\<lambda>e. bucket_pos cs h (snd (key e)) = i) (live g')"
    unfolding l' using p by simp
  show ?thesis using s' p' len' u' t' room by (simp add: bucket_inv_def)
qed

lemma hash_inv_bucket:
  assumes "hash_inv cs h"
  shows "bucket_pos cs h ks < length (buckets h)"
    and "bucket_inv cs h (bucket_pos cs h ks) (buckets h ! bucket_pos cs h ks)"
proof -
  have n: "n_buckets h = length (buckets h)" and p: "is_power2 (n_buckets h)"
    and b: "\<forall>i \<in> {0..<n_buckets h}. bucket_inv cs h i (buckets h ! i)"
    using assms unfolding hash_inv_def by blast+
  have lt: "bucket_pos cs h ks < n_buckets h" using p by (rule bucket_pos_less)
  then show "bucket_pos cs h ks < length (buckets h)" using n by simp
  show "bucket_inv cs h (bucket_pos cs h ks) (buckets h ! bucket_pos cs h ks)"
    using b lt by simp
qed

lemma bucket_inserted:
  fixes g :: hash_bucket and j :: nat and e :: hash_entry
  defines "es \<equiv> array_of (entries g)"
  defines "g' \<equiv> g\<lparr>entries := Some ((memmove es (j + 1) j (used g - j))[j := e]),
                    used := used g + 1\<rparr>"
  assumes inv: "bucket_inv cs h i g" and room: "used g + 1 < total g"
    and j: "j \<le> used g"
    and before: "\<forall>m<j. key_lt (live g ! m) e"
    and after: "j < used g \<longrightarrow> key_lt e (live g ! j)"
    and p: "bucket_pos cs h (snd (key e)) = i"
  shows "live g' = take j (live g) @ e # drop j (live g)" and "bucket_inv cs h i g'"
proof -
  have len: "length es = total g" using inv by (simp add: bucket_inv_def es_def)
  have n: "used g < length es" using room len by simp
  show l': "live g' = take j (live g) @ e # drop j (live g)"
    using take_insert [OF j n, of e] by (simp add: g'_def live_def array_of_def es_def)
  have "length (memmove es (j + 1) j (used g - j)) = length es"
    using j n by (intro length_memmove) simp_all
  then have len': "length (array_of (entries g')) = total g"
    using len by (simp add: g'_def array_of_def)
  show "bucket_inv cs h i g'"
    using inv room l' _ _ len' j before after p
    by (rule bucket_insert_inv) (simp_all add: g'_def)
qed

lemma bucket_appended:
  fixes g :: hash_bucket and e :: hash_entry
  defines "es \<equiv> array_of (entries g)"
  defines "g' \<equiv> g\<lparr>entries := Some (es[used g := e]), used := used g + 1\<rparr>"
  assumes inv: "bucket_inv cs h i g" and room: "used g + 1 < total g"
    and before: "\<forall>m<used g. key_lt (live g ! m) e"
    and p: "bucket_pos cs h (snd (key e)) = i"
  shows "live g' = take (used g) (live g) @ e # drop (used g) (live g)"
    and "bucket_inv cs h i g'"
proof -
  have len: "length es = total g" using inv by (simp add: bucket_inv_def es_def)
  have n: "used g < length es" using room len by simp
  show l': "live g' = take (used g) (live g) @ e # drop (used g) (live g)"
    using take_append_end [OF n, of e] n
    by (simp add: g'_def live_def array_of_def es_def)
  have len': "length (array_of (entries g')) = total g"
    using len by (simp add: g'_def array_of_def)
  show "bucket_inv cs h i g'"
    using inv room l' _ _ len' _ before _ p
    by (rule bucket_insert_inv) (simp_all add: g'_def)
qed

lemma hash_add_None:
  "grow_bucket ok (step h) (buckets h ! bucket_pos cs h (snd k)) = None
   \<Longrightarrow> hash_add cs ok h k v = (Inl ENOMEM, h, [])"
  by (simp add: hash_add_def Let_def)

lemma hash_add_Equal:
  "grow_bucket ok (step h) (buckets h ! bucket_pos cs h (snd k)) = Some g
   \<Longrightarrow> scan_entries (snd k) (array_of (entries g)) 0 (used g) = Equal i
   \<Longrightarrow> hash_add cs ok h k v =
       (Inr (),
        h\<lparr>buckets := (buckets h)[bucket_pos cs h (snd k) :=
             g\<lparr>entries := Some ((array_of (entries g))[i := \<lparr>key = k, value = v\<rparr>])\<rparr>]\<rparr>,
        if free_value h \<noteq> NULL then [value (array_of (entries g) ! i)] else [])"
  by (simp add: hash_add_def Let_def)

lemma hash_add_Less:
  "grow_bucket ok (step h) (buckets h ! bucket_pos cs h (snd k)) = Some g
   \<Longrightarrow> scan_entries (snd k) (array_of (entries g)) 0 (used g) = Less i
   \<Longrightarrow> hash_add cs ok h k v =
       (Inr (),
        h\<lparr>count := count h + 1,
          buckets := (buckets h)[bucket_pos cs h (snd k) :=
             g\<lparr>entries := Some ((memmove (array_of (entries g)) (i + 1) i (used g - i))
                                  [i := \<lparr>key = k, value = v\<rparr>]),
               used := used g + 1\<rparr>]\<rparr>,
        [])"
  by (simp add: hash_add_def Let_def)

lemma hash_add_End:
  "grow_bucket ok (step h) (buckets h ! bucket_pos cs h (snd k)) = Some g
   \<Longrightarrow> scan_entries (snd k) (array_of (entries g)) 0 (used g) = End i
   \<Longrightarrow> hash_add cs ok h k v =
       (Inr (),
        h\<lparr>count := count h + 1,
          buckets := (buckets h)[bucket_pos cs h (snd k) :=
             g\<lparr>entries := Some ((array_of (entries g))[i := \<lparr>key = k, value = v\<rparr>]),
               used := used g + 1\<rparr>]\<rparr>,
        [])"
  by (simp add: hash_add_def Let_def)

lemma hash_add_cases [consumes 1, case_names nomem replace insert]:
  fixes cs ok h k v
  defines "pos \<equiv> bucket_pos cs h (snd k)"
  defines "b \<equiv> buckets h ! pos"
  defines "new \<equiv> \<lparr>key = k, value = v\<rparr>"
  defines "grown \<equiv> (if used b + 1 \<ge> total b then total b + step h else total b)"
  assumes inv: "hash_inv cs h"
  obtains
    (nomem) "used b + 1 \<ge> total b" "\<not> ok" "hash_add cs ok h k v = (Inl ENOMEM, h, [])"
  | (replace) i g where "i < used b" "snd (key (live b ! i)) = snd k"
      "hash_add cs ok h k v =
         (Inr (), h\<lparr>buckets := (buckets h)[pos := g]\<rparr>,
          if free_value h \<noteq> NULL then [value (live b ! i)] else [])"
      "live g = (live b)[i := new]" "used g = used b" "total g = grown"
      "bucket_inv cs h pos g" "used b + 1 \<ge> total b \<longrightarrow> ok"
  | (insert) j g where "j \<le> used b" "\<forall>m<j. key_lt (live b ! m) new"
      "j < used b \<longrightarrow> key_lt new (live b ! j)"
      "hash_add cs ok h k v =
         (Inr (), h\<lparr>count := count h + 1, buckets := (buckets h)[pos := g]\<rparr>, [])"
      "live g = take j (live b) @ new # drop j (live b)" "used g = used b + 1"
      "total g = grown" "bucket_inv cs h pos g" "used b + 1 \<ge> total b \<longrightarrow> ok"
proof (cases "grow_bucket ok (step h) b")
  case None
  then have "used b + 1 \<ge> total b" "\<not> ok" by (simp_all add: grow_bucket_None)
  moreover have "hash_add cs ok h k v = (Inl ENOMEM, h, [])"
    using None by (simp add: hash_add_def Let_def pos_def b_def)
  ultimately show ?thesis by (rule nomem)
next
  case Some0: (Some g0)
  have Some: "grow_bucket ok (step h) (buckets h ! bucket_pos cs h (snd k)) = Some g0"
    using Some0 by (simp add: b_def pos_def)
  have Some': "grow_bucket ok (step h) b = Some g0" using Some0 .
  have binv: "bucket_inv cs h pos b"
    unfolding b_def pos_def using inv by (rule hash_inv_bucket)
  have stp: "4 \<le> step h" using inv by (simp add: hash_inv_def)
  note g0 = grow_bucket_inv [OF binv stp Some']
  have u0: "used g0 = used b" using Some' by (rule grow_bucket_Some)
  have t0: "total g0 = grown" unfolding grown_def using Some' by (rule grow_bucket_Some)
  have okk: "used b + 1 \<ge> total b \<longrightarrow> ok" using grow_bucket_Some(3) [OF Some'] by simp
  have len0: "used g0 \<le> length (array_of (entries g0))" using g0(3,4) by simp
  have pnew: "bucket_pos cs h (snd (key new)) = pos" by (simp add: new_def pos_def)
  let ?es = "array_of (entries g0)"
  show ?thesis
  proof (cases "scan_entries (snd k) ?es 0 (used g0)")
    case (Equal i)
    have i: "i < used g0" "snd (key (live g0 ! i)) = snd k"
      using scan_grown(1) [OF len0 Equal] by simp_all
    define g where "g = g0\<lparr>entries := Some (?es[i := new])\<rparr>"
    have knew: "snd (key new) = snd (key (live g0 ! i))" using i by (simp add: new_def)
    note r = bucket_replace [OF g0(1) i(1) knew]
    have "live g0 ! i = ?es ! i" using i(1) by (simp add: live_def)
    then have v: "value (?es ! i) = value (live b ! i)"
      using g0(2) by simp
    have "hash_add cs ok h k v =
         (Inr (), h\<lparr>buckets := (buckets h)[pos := g]\<rparr>,
          if free_value h \<noteq> NULL then [value (live b ! i)] else [])"
      unfolding hash_add_Equal [OF Some Equal] v g_def new_def pos_def ..
    moreover have "i < used b" "snd (key (live b ! i)) = snd k"
      using i u0 g0(2) by simp_all
    moreover have "live g = (live b)[i := new]" "used g = used b" "total g = grown"
      "bucket_inv cs h pos g"
      using r u0 t0 g0(2) by (simp_all add: g_def)
    ultimately show ?thesis using okk by - (rule replace [of i g], blast+)
  next
    case (Less j)
    have j: "j < used g0" "\<forall>m<j. key_lt (live g0 ! m) new" "key_lt new (live g0 ! j)"
      using scan_grown(2) [OF len0 Less] by (simp_all add: new_def)
    define g where "g = g0\<lparr>entries := Some ((memmove ?es (j + 1) j (used g0 - j))[j := new]),
                          used := used g0 + 1\<rparr>"
    have jle: "j \<le> used g0" and aft: "j < used g0 \<longrightarrow> key_lt new (live g0 ! j)"
      using j by simp_all
    note r = bucket_inserted [OF g0(1,3) jle j(2) aft pnew]
    have "hash_add cs ok h k v =
         (Inr (), h\<lparr>count := count h + 1, buckets := (buckets h)[pos := g]\<rparr>, [])"
      unfolding hash_add_Less [OF Some Less] g_def new_def pos_def ..
    moreover have "j \<le> used b" "\<forall>m<j. key_lt (live b ! m) new"
      "j < used b \<longrightarrow> key_lt new (live b ! j)"
      using j u0 g0(2) by simp_all
    moreover have "live g = take j (live b) @ new # drop j (live b)" "used g = used b + 1"
      "total g = grown" "bucket_inv cs h pos g"
      using r u0 t0 g0(2) by (simp_all add: g_def)
    ultimately show ?thesis
      using okk by - (rule insert [of j g], blast+)
  next
    case (End j)
    have j: "j = used g0" "\<forall>m<used g0. key_lt (live g0 ! m) new"
      using scan_grown(3) [OF len0 End] by (simp_all add: new_def)
    define g where "g = g0\<lparr>entries := Some (?es[used g0 := new]), used := used g0 + 1\<rparr>"
    note r = bucket_appended [OF g0(1,3) j(2) pnew]
    have "hash_add cs ok h k v =
         (Inr (), h\<lparr>count := count h + 1, buckets := (buckets h)[pos := g]\<rparr>, [])"
      unfolding hash_add_End [OF Some End] g_def new_def pos_def j(1) ..
    moreover have "used b \<le> used b" "\<forall>m<used b. key_lt (live b ! m) new"
      "used b < used b \<longrightarrow> key_lt new (live b ! used b)"
      using j u0 g0(2) by simp_all
    moreover have "live g = take (used b) (live b) @ new # drop (used b) (live b)"
      "used g = used b + 1" "total g = grown" "bucket_inv cs h pos g"
      using r u0 t0 g0(2) by (simp_all add: g_def)
    ultimately show ?thesis
      using okk by - (rule insert [of "used b" g], blast+)
  qed
qed

lemma hash_add_unique_None:
  "grow_bucket ok (step h) (buckets h ! bucket_pos cs h (snd k)) = None
   \<Longrightarrow> hash_add_unique cs ok h k v = (Inl ENOMEM, h, [])"
  by (simp add: hash_add_unique_def Let_def)

lemma hash_add_unique_Equal:
  "grow_bucket ok (step h) (buckets h ! bucket_pos cs h (snd k)) = Some g
   \<Longrightarrow> scan_entries (snd k) (array_of (entries g)) 0 (used g) = Equal i
   \<Longrightarrow> hash_add_unique cs ok h k v =
       (Inl EEXIST, h\<lparr>buckets := (buckets h)[bucket_pos cs h (snd k) := g]\<rparr>, [])"
  by (simp add: hash_add_unique_def Let_def)

lemma hash_add_unique_Less:
  "grow_bucket ok (step h) (buckets h ! bucket_pos cs h (snd k)) = Some g
   \<Longrightarrow> scan_entries (snd k) (array_of (entries g)) 0 (used g) = Less i
   \<Longrightarrow> hash_add_unique cs ok h k v =
       (Inr (),
        h\<lparr>count := count h + 1,
          buckets := (buckets h)[bucket_pos cs h (snd k) :=
             g\<lparr>entries := Some ((memmove (array_of (entries g)) (i + 1) i (used g - i))
                                  [i := \<lparr>key = k, value = v\<rparr>]),
               used := used g + 1\<rparr>]\<rparr>,
        [])"
  by (simp add: hash_add_unique_def Let_def)

lemma hash_add_unique_End:
  "grow_bucket ok (step h) (buckets h ! bucket_pos cs h (snd k)) = Some g
   \<Longrightarrow> scan_entries (snd k) (array_of (entries g)) 0 (used g) = End i
   \<Longrightarrow> hash_add_unique cs ok h k v =
       (Inr (),
        h\<lparr>count := count h + 1,
          buckets := (buckets h)[bucket_pos cs h (snd k) :=
             g\<lparr>entries := Some ((array_of (entries g))[i := \<lparr>key = k, value = v\<rparr>]),
               used := used g + 1\<rparr>]\<rparr>,
        [])"
  by (simp add: hash_add_unique_def Let_def)

lemma hash_add_unique_cases [consumes 1, case_names nomem present insert]:
  fixes cs ok h k v
  defines "pos \<equiv> bucket_pos cs h (snd k)"
  defines "b \<equiv> buckets h ! pos"
  defines "new \<equiv> \<lparr>key = k, value = v\<rparr>"
  defines "grown \<equiv> (if used b + 1 \<ge> total b then total b + step h else total b)"
  assumes inv: "hash_inv cs h"
  obtains
    (nomem) "used b + 1 \<ge> total b" "\<not> ok" "hash_add_unique cs ok h k v = (Inl ENOMEM, h, [])"
  | (present) i g where "i < used b" "snd (key (live b ! i)) = snd k"
      "hash_add_unique cs ok h k v =
         (Inl EEXIST, h\<lparr>buckets := (buckets h)[pos := g]\<rparr>, [])"
      "live g = live b" "used g = used b" "total g = grown"
      "bucket_inv cs h pos g" "used b + 1 \<ge> total b \<longrightarrow> ok"
      "used b + 1 < total b \<longrightarrow> g = b"
  | (insert) j g where "j \<le> used b" "\<forall>m<j. key_lt (live b ! m) new"
      "j < used b \<longrightarrow> key_lt new (live b ! j)"
      "hash_add_unique cs ok h k v =
         (Inr (), h\<lparr>count := count h + 1, buckets := (buckets h)[pos := g]\<rparr>, [])"
      "live g = take j (live b) @ new # drop j (live b)" "used g = used b + 1"
      "total g = grown" "bucket_inv cs h pos g" "used b + 1 \<ge> total b \<longrightarrow> ok"
proof (cases "grow_bucket ok (step h) b")
  case None
  then have "used b + 1 \<ge> total b" "\<not> ok" by (simp_all add: grow_bucket_None)
  moreover have "hash_add_unique cs ok h k v = (Inl ENOMEM, h, [])"
    using None by (simp add: hash_add_unique_def Let_def pos_def b_def)
  ultimately show ?thesis by (rule nomem)
next
  case Some0: (Some g0)
  have Some: "grow_bucket ok (step h) (buckets h ! bucket_pos cs h (snd k)) = Some g0"
    using Some0 by (simp add: b_def pos_def)
  have Some': "grow_bucket ok (step h) b = Some g0" using Some0 .
  have binv: "bucket_inv cs h pos b"
    unfolding b_def pos_def using inv by (rule hash_inv_bucket)
  have stp: "4 \<le> step h" using inv by (simp add: hash_inv_def)
  note g0 = grow_bucket_inv [OF binv stp Some']
  have u0: "used g0 = used b" using Some' by (rule grow_bucket_Some)
  have t0: "total g0 = grown" unfolding grown_def using Some' by (rule grow_bucket_Some)
  have okk: "used b + 1 \<ge> total b \<longrightarrow> ok" using grow_bucket_Some(3) [OF Some'] by simp
  have len0: "used g0 \<le> length (array_of (entries g0))" using g0(3,4) by simp
  have pnew: "bucket_pos cs h (snd (key new)) = pos" by (simp add: new_def pos_def)
  let ?es = "array_of (entries g0)"
  show ?thesis
  proof (cases "scan_entries (snd k) ?es 0 (used g0)")
    case (Equal i)
    have i: "i < used g0" "snd (key (live g0 ! i)) = snd k"
      using scan_grown(1) [OF len0 Equal] by simp_all
    have "hash_add_unique cs ok h k v =
         (Inl EEXIST, h\<lparr>buckets := (buckets h)[pos := g0]\<rparr>, [])"
      unfolding hash_add_unique_Equal [OF Some Equal] pos_def ..
    moreover have "i < used b" "snd (key (live b ! i)) = snd k"
      using i u0 g0(2) by simp_all
    moreover have "used b + 1 < total b \<longrightarrow> g0 = b"
      using grow_bucket_Some(2) [OF Some'] by simp
    ultimately show ?thesis
      using okk g0(1,2) u0 t0 by - (rule present [of i g0], blast+)
  next
    case (Less j)
    have j: "j < used g0" "\<forall>m<j. key_lt (live g0 ! m) new" "key_lt new (live g0 ! j)"
      using scan_grown(2) [OF len0 Less] by (simp_all add: new_def)
    define g where "g = g0\<lparr>entries := Some ((memmove ?es (j + 1) j (used g0 - j))[j := new]),
                          used := used g0 + 1\<rparr>"
    have jle: "j \<le> used g0" and aft: "j < used g0 \<longrightarrow> key_lt new (live g0 ! j)"
      using j by simp_all
    note r = bucket_inserted [OF g0(1,3) jle j(2) aft pnew]
    have "hash_add_unique cs ok h k v =
         (Inr (), h\<lparr>count := count h + 1, buckets := (buckets h)[pos := g]\<rparr>, [])"
      unfolding hash_add_unique_Less [OF Some Less] g_def new_def pos_def ..
    moreover have "j \<le> used b" "\<forall>m<j. key_lt (live b ! m) new"
      "j < used b \<longrightarrow> key_lt new (live b ! j)"
      using j u0 g0(2) by simp_all
    moreover have "live g = take j (live b) @ new # drop j (live b)" "used g = used b + 1"
      "total g = grown" "bucket_inv cs h pos g"
      using r u0 t0 g0(2) by (simp_all add: g_def)
    ultimately show ?thesis
      using okk by - (rule insert [of j g], blast+)
  next
    case (End j)
    have j: "j = used g0" "\<forall>m<used g0. key_lt (live g0 ! m) new"
      using scan_grown(3) [OF len0 End] by (simp_all add: new_def)
    define g where "g = g0\<lparr>entries := Some (?es[used g0 := new]), used := used g0 + 1\<rparr>"
    note r = bucket_appended [OF g0(1,3) j(2) pnew]
    have "hash_add_unique cs ok h k v =
         (Inr (), h\<lparr>count := count h + 1, buckets := (buckets h)[pos := g]\<rparr>, [])"
      unfolding hash_add_unique_End [OF Some End] g_def new_def pos_def j(1) ..
    moreover have "used b \<le> used b" "\<forall>m<used b. key_lt (live b ! m) new"
      "used b < used b \<longrightarrow> key_lt new (live b ! used b)"
      using j u0 g0(2) by simp_all
    moreover have "live g = take (used b) (live b) @ new # drop (used b) (live b)"
      "used g = used b + 1" "total g = grown" "bucket_inv cs h pos g"
      using r u0 t0 g0(2) by (simp_all add: g_def)
    ultimately show ?thesis
      using okk by - (rule insert [of "used b" g], blast+)
  qed
qed

lemma sorted_key_unique:
  assumes "sorted_wrt key_lt xs" and "i < length xs" and "j < length xs"
    and "snd (key (xs ! i)) = snd (key (xs ! j))"
  shows "i = j"
proof (rule ccontr)
  assume "i \<noteq> j"
  then consider "i < j" | "j < i" by linarith
  then show False
  proof cases
    case 1
    then have "key_lt (xs ! i) (xs ! j)"
      using assms(1,3) by (simp add: sorted_wrt_iff_nth_less)
    then show False
      using assms(4) by (simp add: key_lt_def hash_entry_cmp_def strcmp_refl)
  next
    case 2
    then have "key_lt (xs ! j) (xs ! i)"
      using assms(1,2) by (simp add: sorted_wrt_iff_nth_less)
    then show False
      using assms(4) by (simp add: key_lt_def hash_entry_cmp_def strcmp_refl)
  qed
qed

lemma bsearch_live:
  fixes b :: hash_bucket and k :: cstr
  defines "se \<equiv> \<lparr>key = k, value = NULL\<rparr>"
  assumes inv: "bucket_inv cs h i b"
  shows "bsearch se (array_of (entries b)) 0 (used b) = Some j
         \<Longrightarrow> j < used b \<and> snd (key (live b ! j)) = snd k"
    and "bsearch se (array_of (entries b)) 0 (used b) = None
         \<Longrightarrow> \<forall>e \<in> set (live b). snd (key e) \<noteq> snd k"
proof -
  let ?es = "array_of (entries b)"
  have len: "length ?es = total b" and u: "used b \<le> total b"
    and srt: "sorted_wrt key_lt (live b)"
    using inv by (auto simp: bucket_inv_def)
  have "ascending ?es (used b)"
    using srt len u by (simp add: ascending_sorted_wrt live_def)
  then have post: "bsearch_post se ?es 0 (used b) (bsearch se ?es 0 (used b))"
    by (rule bsearch_spec) simp
  show "bsearch se ?es 0 (used b) = Some j \<Longrightarrow> j < used b \<and> snd (key (live b ! j)) = snd k"
    using post
    by (auto simp: bsearch_post_def hash_entry_cmp_def se_def live_def strcmp_eq0)
  show "bsearch se ?es 0 (used b) = None \<Longrightarrow> \<forall>e \<in> set (live b). snd (key e) \<noteq> snd k"
  proof
    fix e assume n: "bsearch se ?es 0 (used b) = None" and e: "e \<in> set (live b)"
    then obtain m where m: "m < used b" "e = ?es ! m"
      using len u by (auto simp: live_def in_set_conv_nth)
    have "hash_entry_cmp se (?es ! m) \<noteq> 0"
      using post n m(1) by (simp add: bsearch_post_def)
    then show "snd (key e) \<noteq> snd k"
      using m(2) by (auto simp: hash_entry_cmp_def se_def strcmp_eq0)
  qed
qed

lemma bucket_null_empty:
  assumes "bucket_inv cs h i b" and "entries b = None"
  shows "live b = []"
  using assms by (simp add: bucket_inv_def live_def array_of_def)

lemma hash_find_cases [consumes 1, case_names absent found]:
  fixes cs h k
  defines "pos \<equiv> bucket_pos cs h (snd k)"
  defines "b \<equiv> buckets h ! pos"
  assumes inv: "hash_inv cs h"
  obtains
    (absent) "\<forall>e \<in> set (live b). snd (key e) \<noteq> snd k" "hash_find cs h k = (NULL, h, [])"
  | (found) i where "i < used b" "snd (key (live b ! i)) = snd k"
      "hash_find cs h k = (value (live b ! i), h, [])"
proof -
  have binv: "bucket_inv cs h pos b"
    unfolding b_def pos_def using inv by (rule hash_inv_bucket)
  let ?se = "\<lparr>key = k, value = NULL\<rparr>"
  show ?thesis
  proof (cases "entries b = None")
    case True
    then have "live b = []" using binv by (intro bucket_null_empty)
    moreover have "hash_find cs h k = (NULL, h, [])"
      using True by (simp add: hash_find_def Let_def b_def pos_def)
    ultimately show ?thesis by (intro absent) simp_all
  next
    case False
    show ?thesis
    proof (cases "bsearch ?se (array_of (entries b)) 0 (used b)")
      case None
      have "hash_find cs h k = (NULL, h, [])"
        using False None by (auto simp: hash_find_def Let_def b_def pos_def)
      then show ?thesis using bsearch_live(2) [OF binv None] by (intro absent)
    next
      case (Some i)
      have i: "i < used b" "snd (key (live b ! i)) = snd k"
        using bsearch_live(1) [OF binv Some] by simp_all
      have "hash_find cs h k = (value (array_of (entries b) ! i), h, [])"
        using False Some by (auto simp: hash_find_def Let_def b_def pos_def)
      moreover have "live b ! i = array_of (entries b) ! i"
        using i(1) by (simp add: live_def)
      ultimately show ?thesis using i by (intro found [of i]) simp_all
    qed
  qed
qed

lemma div_step_bound: "0 < s \<Longrightarrow> (n::nat) < (n div s + 1) * s"
  using dividend_less_div_times [of s n] by (simp add: algebra_simps)

lemma bucket_shifted:
  fixes b :: hash_bucket and i :: nat
  defines "g1 \<equiv> b\<lparr>entries := Some (memmove (array_of (entries b)) i (i + 1) (used b - i - 1)),
                    used := used b - 1\<rparr>"
  assumes inv: "bucket_inv cs h p b" and i: "i < used b"
  shows "live g1 = take i (live b) @ drop (i + 1) (live b)" and "bucket_inv cs h p g1"
    and "used g1 = used b - 1" and "total g1 = total b"
proof -
  let ?es = "array_of (entries b)"
  have len: "length ?es = total b" and u: "used b \<le> total b"
    and srt: "sorted_wrt key_lt (live b)"
    and pos: "list_all (\<lambda>e. bucket_pos cs h (snd (key e)) = p) (live b)"
    using inv by (auto simp: bucket_inv_def)
  have n: "used b \<le> length ?es" using len u by simp
  show l: "live g1 = take i (live b) @ drop (i + 1) (live b)"
    using take_delete [OF i n] by (simp add: g1_def live_def array_of_def)
  show "used g1 = used b - 1" "total g1 = total b" by (simp_all add: g1_def)
  have "length (memmove ?es i (i + 1) (used b - i - 1)) = length ?es"
    using i n by (intro length_memmove) simp_all
  then have len1: "length (array_of (entries g1)) = total g1"
    using len by (simp add: g1_def array_of_def)
  have s1: "sorted_wrt key_lt (live g1)"
    unfolding l using srt by (rule sorted_wrt_delete)
  have "list_all (\<lambda>e. bucket_pos cs h (snd (key e)) = p) (take i (live b))"
    "list_all (\<lambda>e. bucket_pos cs h (snd (key e)) = p) (drop (i + 1) (live b))"
    using pos by (auto simp: list_all_iff dest: in_set_takeD in_set_dropD)
  then have p1: "list_all (\<lambda>e. bucket_pos cs h (snd (key e)) = p) (live g1)"
    unfolding l by simp
  have "used g1 = 0 \<or> used g1 < total g1" using i u by (auto simp: g1_def)
  then show "bucket_inv cs h p g1" using len1 s1 p1 by (simp add: bucket_inv_def)
qed

lemma bucket_shrunk:
  assumes inv: "bucket_inv cs h p g1" and stp: "0 < stp"
  shows "live (shrink_bucket ok stp g1) = live g1"
    and "used (shrink_bucket ok stp g1) = used g1"
    and "total (shrink_bucket ok stp g1)
         = (if used g1 div stp + 1 < total g1 div stp \<and> ok
            then (used g1 div stp + 1) * stp else total g1)"
    and "bucket_inv cs h p (shrink_bucket ok stp g1)"
proof -
  define m where "m = (used g1 div stp + 1) * stp"
  have len: "length (array_of (entries g1)) = total g1" and u: "used g1 \<le> total g1"
    using inv by (auto simp: bucket_inv_def)
  have um: "used g1 < m" unfolding m_def using stp by (rule div_step_bound)
  show u': "used (shrink_bucket ok stp g1) = used g1"
    by (simp add: shrink_bucket_def Let_def realloc_def)
  show t': "total (shrink_bucket ok stp g1)
         = (if used g1 div stp + 1 < total g1 div stp \<and> ok
            then (used g1 div stp + 1) * stp else total g1)"
    by (simp add: shrink_bucket_def Let_def realloc_def)
  show l': "live (shrink_bucket ok stp g1) = live g1"
  proof (cases "used g1 div stp + 1 < total g1 div stp \<and> ok")
    case False
    then show ?thesis by (auto simp: shrink_bucket_def Let_def realloc_def)
  next
    case True
    then have "entries (shrink_bucket ok stp g1) = realloc True (entries g1) m"
      by (simp add: shrink_bucket_def Let_def realloc_def m_def)
    moreover have "used g1 \<le> m" "used g1 \<le> length (array_of (entries g1))"
      using um u len by simp_all
    ultimately show ?thesis
      unfolding live_def u' by (simp add: live_realloc)
  qed
  have len': "length (array_of (entries (shrink_bucket ok stp g1)))
              = total (shrink_bucket ok stp g1)"
  proof (cases "used g1 div stp + 1 < total g1 div stp \<and> ok")
    case False
    then show ?thesis using len by (auto simp: shrink_bucket_def Let_def realloc_def)
  next
    case True
    then have "entries (shrink_bucket ok stp g1) = realloc True (entries g1) m"
      by (simp add: shrink_bucket_def Let_def realloc_def m_def)
    then show ?thesis using True unfolding t' by (simp add: length_realloc m_def)
  qed
  have "used g1 = 0 \<or> used g1 < total g1" using inv by (simp add: bucket_inv_def)
  then have "used (shrink_bucket ok stp g1) = 0
             \<or> used (shrink_bucket ok stp g1) < total (shrink_bucket ok stp g1)"
    unfolding u' t' using um by (auto simp: m_def)
  then show "bucket_inv cs h p (shrink_bucket ok stp g1)"
    using inv len' l' by (simp add: bucket_inv_def)
qed

lemma hash_del_NULL:
  "entries (buckets h ! bucket_pos cs h (snd k)) = None
   \<Longrightarrow> hash_del cs ok h k = (Inl ENOENT, h, [])"
  by (simp add: hash_del_def Let_def)

lemma hash_del_None:
  "bsearch \<lparr>key = k, value = NULL\<rparr> (array_of (entries (buckets h ! bucket_pos cs h (snd k))))
      0 (used (buckets h ! bucket_pos cs h (snd k))) = None
   \<Longrightarrow> hash_del cs ok h k = (Inl ENOENT, h, [])"
  by (simp add: hash_del_def Let_def)

lemma hash_del_Some:
  fixes h :: hash and k :: cstr and cs :: bool
  defines "b \<equiv> buckets h ! bucket_pos cs h (snd k)"
  assumes "entries b \<noteq> None"
    and "bsearch \<lparr>key = k, value = NULL\<rparr> (array_of (entries b)) 0 (used b) = Some i"
  shows "hash_del cs ok h k =
     (Inr (),
      h\<lparr>count := count h - 1,
        buckets := (buckets h)[bucket_pos cs h (snd k) :=
          shrink_bucket ok (step h)
            (b\<lparr>entries := Some (memmove (array_of (entries b)) i (i + 1) (used b - i - 1)),
               used := used b - 1\<rparr>)]\<rparr>,
      if free_value h \<noteq> NULL then [value (array_of (entries b) ! i)] else [])"
  using assms(2,3)
  by (auto simp: hash_del_def Let_def b_def)

lemma hash_del_cases [consumes 1, case_names absent removed]:
  fixes cs ok h k
  defines "pos \<equiv> bucket_pos cs h (snd k)"
  defines "b \<equiv> buckets h ! pos"
  assumes inv: "hash_inv cs h"
  obtains
    (absent) "\<forall>e \<in> set (live b). snd (key e) \<noteq> snd k"
      "hash_del cs ok h k = (Inl ENOENT, h, [])"
  | (removed) i g where "i < used b" "snd (key (live b ! i)) = snd k"
      "hash_del cs ok h k =
         (Inr (), h\<lparr>count := count h - 1, buckets := (buckets h)[pos := g]\<rparr>,
          if free_value h \<noteq> NULL then [value (live b ! i)] else [])"
      "live g = take i (live b) @ drop (i + 1) (live b)" "used g = used b - 1"
      "total g = (if (used b - 1) div step h + 1 < total b div step h \<and> ok
                  then ((used b - 1) div step h + 1) * step h else total b)"
      "bucket_inv cs h pos g"
proof -
  have binv: "bucket_inv cs h pos b"
    unfolding b_def pos_def using inv by (rule hash_inv_bucket)
  have stp: "0 < step h" using inv by (simp add: hash_inv_def)
  let ?se = "\<lparr>key = k, value = NULL\<rparr>"
  show ?thesis
  proof (cases "entries b = None")
    case True
    then have "live b = []" using binv by (intro bucket_null_empty)
    moreover have "hash_del cs ok h k = (Inl ENOENT, h, [])"
      using True by (intro hash_del_NULL) (simp add: b_def pos_def)
    ultimately show ?thesis by (intro absent) simp_all
  next
    case False
    show ?thesis
    proof (cases "bsearch ?se (array_of (entries b)) 0 (used b)")
      case None
      have "hash_del cs ok h k = (Inl ENOENT, h, [])"
        using None by (intro hash_del_None) (simp add: b_def pos_def)
      then show ?thesis using bsearch_live(2) [OF binv None] by (intro absent)
    next
      case (Some i)
      have i: "i < used b" "snd (key (live b ! i)) = snd k"
        using bsearch_live(1) [OF binv Some] by simp_all
      define g1 where
        "g1 = b\<lparr>entries := Some (memmove (array_of (entries b)) i (i + 1) (used b - i - 1)),
                used := used b - 1\<rparr>"
      define g where "g = shrink_bucket ok (step h) g1"
      note s1 = bucket_shifted [OF binv i(1), folded g1_def]
      note s2 = bucket_shrunk [OF s1(2) stp, of ok, folded g_def]
      have vi: "live b ! i = array_of (entries b) ! i"
        using i(1) by (simp add: live_def)
      have "hash_del cs ok h k =
         (Inr (), h\<lparr>count := count h - 1, buckets := (buckets h)[pos := g]\<rparr>,
          if free_value h \<noteq> NULL then [value (live b ! i)] else [])"
        using hash_del_Some [of h cs k i ok] False Some
        by (simp add: b_def pos_def g_def g1_def vi [unfolded b_def pos_def])
      moreover have "live g = take i (live b) @ drop (i + 1) (live b)" "used g = used b - 1"
        "total g = (if (used b - 1) div step h + 1 < total b div step h \<and> ok
                  then ((used b - 1) div step h + 1) * step h else total b)"
        "bucket_inv cs h pos g"
        using s1 s2 by simp_all
      ultimately show ?thesis using i by - (rule removed [of i g], blast+)
    qed
  qed
qed

lemma sum_list_used_update:
  "pos < length bs \<Longrightarrow>
   sum_list (map used (bs[pos := g])) + used (bs ! pos) = sum_list (map used bs) + used g"
proof (induction bs arbitrary: pos)
  case Nil
  then show ?case by simp
next
  case (Cons a bs)
  then show ?case by (cases pos) auto
qed

lemma hash_inv_update:
  assumes inv: "hash_inv cs h" and pos: "pos < length (buckets h)"
    and g: "bucket_inv cs h pos g"
    and c: "c + used (buckets h ! pos) = count h + used g"
  shows "hash_inv cs (h\<lparr>count := c, buckets := (buckets h)[pos := g]\<rparr>)"
proof -
  let ?h' = "h\<lparr>count := c, buckets := (buckets h)[pos := g]\<rparr>"
  have n: "n_buckets h = length (buckets h)" and p: "is_power2 (n_buckets h)"
    and s: "4 \<le> step h" "step h \<le> 64"
    and cnt: "count h = sum_list (map used (buckets h))"
    and b: "\<forall>i \<in> {0..<n_buckets h}. bucket_inv cs h i (buckets h ! i)"
    using inv unfolding hash_inv_def by blast+
  have nb: "n_buckets ?h' = n_buckets h" by simp
  have "sum_list (map used ((buckets h)[pos := g])) + used (buckets h ! pos)
        = sum_list (map used (buckets h)) + used g"
    using pos by (rule sum_list_used_update)
  then have c': "count ?h' = sum_list (map used (buckets ?h'))"
    using c cnt by simp
  have b': "\<forall>i \<in> {0..<n_buckets ?h'}. bucket_inv cs ?h' i (buckets ?h' ! i)"
  proof
    fix i assume "i \<in> {0..<n_buckets ?h'}"
    then have i: "i < length (buckets h)" using n by simp
    have "bucket_inv cs h i ((buckets h)[pos := g] ! i)"
      using i b g n by (cases "i = pos") simp_all
    then show "bucket_inv cs ?h' i (buckets ?h' ! i)"
      by (simp add: bucket_inv_cong [OF nb])
  qed
  show ?thesis
    unfolding hash_inv_def using n p s c' b' by simp
qed

lemma hash_inv_update_same:
  assumes inv: "hash_inv cs h" and pos: "pos < length (buckets h)"
    and g: "bucket_inv cs h pos g"
    and c: "used g = used (buckets h ! pos)"
  shows "hash_inv cs (h\<lparr>buckets := (buckets h)[pos := g]\<rparr>)"
proof -
  have "hash_inv cs (h\<lparr>count := count h, buckets := (buckets h)[pos := g]\<rparr>)"
    using inv pos g by (rule hash_inv_update) (simp add: c)
  then show ?thesis by simp
qed

lemma hash_add_inv:
  assumes inv: "hash_inv cs h" and r: "hash_add cs ok h k v = (r, h', freed)"
  shows "hash_inv cs h'"
proof -
  have pos: "bucket_pos cs h (snd k) < length (buckets h)"
    using inv by (rule hash_inv_bucket)
  from inv show ?thesis
  proof (cases rule: hash_add_cases [where ok = ok and k = k and v = v])
    case nomem
    then show ?thesis using r inv by simp
  next
    case (replace i g)
    then have "h' = h\<lparr>buckets := (buckets h)[bucket_pos cs h (snd k) := g]\<rparr>"
      using r by simp
    then show ?thesis
      using hash_inv_update_same [OF inv pos replace(7)] replace(5) by simp
  next
    case (insert j g)
    then have "h' = h\<lparr>count := count h + 1,
                       buckets := (buckets h)[bucket_pos cs h (snd k) := g]\<rparr>"
      using r by simp
    then show ?thesis
      using hash_inv_update [OF inv pos insert(8), of "count h + 1"] insert(6) by simp
  qed
qed

lemma hash_add_unique_inv:
  assumes inv: "hash_inv cs h" and r: "hash_add_unique cs ok h k v = (r, h', freed)"
  shows "hash_inv cs h'"
proof -
  have pos: "bucket_pos cs h (snd k) < length (buckets h)"
    using inv by (rule hash_inv_bucket)
  from inv show ?thesis
  proof (cases rule: hash_add_unique_cases [where ok = ok and k = k and v = v])
    case nomem
    then show ?thesis using r inv by simp
  next
    case (present i g)
    then have "h' = h\<lparr>buckets := (buckets h)[bucket_pos cs h (snd k) := g]\<rparr>"
      using r by simp
    then show ?thesis
      using hash_inv_update_same [OF inv pos present(7)] present(5) by simp
  next
    case (insert j g)
    then have "h' = h\<lparr>count := count h + 1,
                       buckets := (buckets h)[bucket_pos cs h (snd k) := g]\<rparr>"
      using r by simp
    then show ?thesis
      using hash_inv_update [OF inv pos insert(8), of "count h + 1"] insert(6) by simp
  qed
qed

lemma count_ge_used:
  assumes "hash_inv cs h" and "pos < length (buckets h)"
  shows "used (buckets h ! pos) \<le> count h"
proof -
  have "count h = sum_list (map used (buckets h))" using assms(1) by (simp add: hash_inv_def)
  moreover have "used (buckets h ! pos) \<in> set (map used (buckets h))"
    using assms(2) by simp
  ultimately show ?thesis by (simp add: member_le_sum_list)
qed

lemma hash_del_inv:
  assumes inv: "hash_inv cs h" and r: "hash_del cs ok h k = (r, h', freed)"
  shows "hash_inv cs h'"
proof -
  have pos: "bucket_pos cs h (snd k) < length (buckets h)"
    using inv by (rule hash_inv_bucket)
  from inv show ?thesis
  proof (cases rule: hash_del_cases [where ok = ok and k = k])
    case absent
    then show ?thesis using r inv by simp
  next
    case (removed i g)
    then have h': "h' = h\<lparr>count := count h - 1,
                       buckets := (buckets h)[bucket_pos cs h (snd k) := g]\<rparr>"
      using r by simp
    have "used (buckets h ! bucket_pos cs h (snd k)) \<le> count h"
      using inv pos by (rule count_ge_used)
    then have "count h - 1 + used (buckets h ! bucket_pos cs h (snd k)) = count h + used g"
      using removed(1,5) by simp
    then show ?thesis
      unfolding h' using hash_inv_update [OF inv pos removed(7)] by simp
  qed
qed

lemma align_power2_pow: "\<exists>k. align_power2 u = 2 ^ k"
proof (induction u rule: align_power2.induct)
  case (1 u)
  show ?case
  proof (cases "u \<le> 1")
    case True
    then have "align_power2 u = 2 ^ 0" by (subst align_power2.simps) simp
    then show ?thesis by blast
  next
    case False
    then obtain k where "align_power2 ((u + 1) div 2) = 2 ^ k" using 1 by blast
    then have "align_power2 u = 2 ^ Suc k"
      using False by (subst align_power2.simps) simp
    then show ?thesis by blast
  qed
qed

lemma is_power2_align: "is_power2 (align_power2 u)"
proof -
  obtain k where k: "align_power2 u = 2 ^ k" using align_power2_pow by blast
  have "k < 2 ^ k" by (rule less_exp)
  then have "k \<in> {0..align_power2 u}" using k by simp
  then show ?thesis unfolding is_power2_def using k by blast
qed

lemma hash_new_Some:
  "hash_new True n fv = Some h \<Longrightarrow>
   count h = 0 \<and> n_buckets h = align_power2 n \<and> free_value h = fv
   \<and> step h = (if align_power2 n div 32 < 4 then 4
                else if align_power2 n div 32 > 64 then 64 else align_power2 n div 32)
   \<and> buckets h = replicate (align_power2 n) \<lparr>entries = None, used = 0, total = 0\<rparr>"
  by (auto simp: hash_new_def Let_def)

lemma hash_new_inv:
  assumes "hash_new True n fv = Some h"
  shows "hash_inv cs h"
proof -
  note h = hash_new_Some [OF assms]
  have "bucket_inv cs h i \<lparr>entries = None, used = 0, total = 0\<rparr>" for i
    by (simp add: bucket_inv_def live_def array_of_def)
  then have "\<forall>i \<in> {0..<n_buckets h}. bucket_inv cs h i (buckets h ! i)"
    using h by simp
  moreover have "is_power2 (n_buckets h)" using h is_power2_align by simp
  moreover have "count h = sum_list (map used (buckets h))" using h by simp
  moreover have "n_buckets h = length (buckets h)" using h by simp
  moreover have "4 \<le> step h" "step h \<le> 64" using h by (auto split: if_splits)
  ultimately show ?thesis unfolding hash_inv_def by blast
qed

lemma reachable_inv: "reachable cs h \<Longrightarrow> hash_inv cs h"
proof (induction rule: reachable.induct)
  case (created n fv h)
  then show ?case by (rule hash_new_inv)
next
  case (added h ok k v r h' freed)
  then show ?case using hash_add_inv by blast
next
  case (added_unique h ok k v r h' freed)
  then show ?case using hash_add_unique_inv by blast
next
  case (deleted h ok k r h' freed)
  then show ?case using hash_del_inv by blast
qed

lemma hash_new_the: "hash_new True n fv = Some (the (hash_new True n fv))"
  by (simp add: hash_new_def Let_def)

lemma reachable_fold:
  "reachable cs h \<Longrightarrow>
   reachable cs (fold (\<lambda>(k, v) h. fst (snd (hash_add cs True h k v))) kvs h)"
proof (induction kvs arbitrary: h)
  case Nil
  then show ?case by simp
next
  case (Cons kv kvs)
  obtain k v where kv: "kv = (k, v)" by (cases kv)
  have "hash_add cs True h k v
        = (fst (hash_add cs True h k v), fst (snd (hash_add cs True h k v)),
           snd (snd (hash_add cs True h k v)))"
    by simp
  with Cons.prems have "reachable cs (fst (snd (hash_add cs True h k v)))"
    by (rule reachable.added)
  then show ?case using Cons.IH kv by simp
qed

lemma reachable_build: "reachable cs (build cs n fv kvs)"
  unfolding build_def
  by (rule reachable_fold, rule reachable.created, rule hash_new_the)

lemma hash_inv_build: "hash_inv cs (build cs n fv kvs)"
  using reachable_build by (rule reachable_inv)

lemma sorted_distinct_keys:
  assumes "sorted_wrt key_lt xs"
  shows "distinct (map (\<lambda>e. snd (key e)) xs)"
  unfolding distinct_conv_nth
proof (intro allI impI)
  fix i j
  assume "i < length (map (\<lambda>e. snd (key e)) xs)" "j < length (map (\<lambda>e. snd (key e)) xs)"
    "i \<noteq> j"
  then show "map (\<lambda>e. snd (key e)) xs ! i \<noteq> map (\<lambda>e. snd (key e)) xs ! j"
    using sorted_key_unique [OF assms, of i j] by auto
qed

lemma hash_keys_bucket:
  assumes inv: "hash_inv cs h"
  shows "ks \<in> set (hash_keys h)
         \<longleftrightarrow> (\<exists>e \<in> set (live (buckets h ! bucket_pos cs h ks)). snd (key e) = ks)"
proof
  assume "ks \<in> set (hash_keys h)"
  then obtain b e where b: "b \<in> set (buckets h)" and e: "e \<in> set (live b)" "snd (key e) = ks"
    by (auto simp: hash_keys_def hash_entries_def)
  then obtain i where i: "i < length (buckets h)" "b = buckets h ! i"
    by (auto simp: in_set_conv_nth)
  have "bucket_inv cs h i b" using inv i by (simp add: hash_inv_def)
  then have "bucket_pos cs h (snd (key e)) = i"
    using e(1) by (simp add: bucket_inv_def list_all_iff)
  then show "\<exists>e \<in> set (live (buckets h ! bucket_pos cs h ks)). snd (key e) = ks"
    using e i by auto
next
  assume "\<exists>e \<in> set (live (buckets h ! bucket_pos cs h ks)). snd (key e) = ks"
  moreover have "buckets h ! bucket_pos cs h ks \<in> set (buckets h)"
    using hash_inv_bucket(1) [OF inv] by simp
  ultimately show "ks \<in> set (hash_keys h)"
    by (auto simp: hash_keys_def hash_entries_def)
qed

lemma table_abc_value:
  "table_abc =
     \<lparr>count = 3, step = 4, n_buckets = 1, free_value = NULL,
      buckets =
        [\<lparr>entries = Some [\<lparr>key = key_a, value = 1\<rparr>, \<lparr>key = key_b, value = 2\<rparr>,
                          \<lparr>key = key_c, value = 3\<rparr>, indeterminate],
          used = 3, total = 4\<rparr>]\<rparr>"
  by code_simp

text \<open>
  Claim C5. In every table reachable from \<open>hash_new\<close> by \<open>hash_add\<close>, \<open>hash_add_unique\<close>
  and \<open>hash_del\<close>, the field \<open>count\<close> is the sum of \<open>used\<close> over the buckets, and
  \<open>hash_get_count\<close> returns that number.
\<close>

theorem reachable_count_sum_used:
  assumes "reachable cs h"
  shows "count h = sum_list (map used (buckets h))
         \<and> hash_get_count h = sum_list (map used (buckets h))"
  using reachable_inv [OF assms] by (simp add: hash_inv_def hash_get_count_def)

theorem reachable_count_sum_used_witness:
  "reachable True table_abc
   \<and> count table_abc = sum_list (map used (buckets table_abc))
   \<and> hash_get_count table_abc = sum_list (map used (buckets table_abc))
   \<and> hash_get_count table_abc = 3"
proof -
  have r: "reachable True table_abc" unfolding table_abc_def by (rule reachable_build)
  have "hash_get_count table_abc = 3" by (simp add: table_abc_value hash_get_count_def)
  then show ?thesis using r reachable_count_sum_used [OF r] by simp
qed

text \<open>
  Claim C6. In every reachable table the live entries of each bucket, its first \<open>used\<close>
  slots, ascend strictly in the order of \<open>strcmp\<close> on the key bytes, so no two of them
  have equal keys.
\<close>

theorem reachable_buckets_ascending:
  assumes "reachable cs h" and "b \<in> set (buckets h)"
  shows "sorted_wrt (\<lambda>x y. strcmp (snd (key x)) (snd (key y)) < 0)
           (take (used b) (array_of (entries b)))
         \<and> distinct (map (\<lambda>e. snd (key e)) (take (used b) (array_of (entries b))))"
proof -
  obtain i where i: "i < length (buckets h)" "b = buckets h ! i"
    using assms(2) by (auto simp: in_set_conv_nth)
  have "bucket_inv cs h i b"
    using reachable_inv [OF assms(1)] i by (simp add: hash_inv_def)
  then have s: "sorted_wrt key_lt (live b)" by (simp add: bucket_inv_def)
  have "key_lt = (\<lambda>x y. strcmp (snd (key x)) (snd (key y)) < 0)"
    by (intro ext) (simp add: key_lt_def hash_entry_cmp_def)
  then show ?thesis using s sorted_distinct_keys [OF s] by (simp add: live_def)
qed

theorem reachable_buckets_ascending_witness:
  "reachable True table_abc
   \<and> hd (buckets table_abc) \<in> set (buckets table_abc)
   \<and> sorted_wrt (\<lambda>x y. strcmp (snd (key x)) (snd (key y)) < 0)
        (take (used (hd (buckets table_abc))) (array_of (entries (hd (buckets table_abc)))))
   \<and> distinct (map (\<lambda>e. snd (key e))
        (take (used (hd (buckets table_abc))) (array_of (entries (hd (buckets table_abc))))))
   \<and> map (\<lambda>e. snd (key e))
        (take (used (hd (buckets table_abc))) (array_of (entries (hd (buckets table_abc)))))
      = [[0x61], [0x62], [0x63]]"
proof -
  have r: "reachable True table_abc" unfolding table_abc_def by (rule reachable_build)
  have m: "hd (buckets table_abc) \<in> set (buckets table_abc)" by (simp add: table_abc_value)
  have "map (\<lambda>e. snd (key e))
        (take (used (hd (buckets table_abc))) (array_of (entries (hd (buckets table_abc)))))
      = [[0x61], [0x62], [0x63]]"
    by (simp add: table_abc_value array_of_def key_a_def key_b_def key_c_def)
  then show ?thesis using r m reachable_buckets_ascending [OF r m] by simp
qed

lemma hash_add_result:
  fixes h :: hash and k :: cstr and cs :: bool
  defines "b \<equiv> buckets h ! bucket_pos cs h (snd k)"
  shows "total b \<le> used b + 1 \<and> \<not> ok \<Longrightarrow> hash_add cs ok h k v = (Inl ENOMEM, h, [])"
    and "\<not> (total b \<le> used b + 1 \<and> \<not> ok) \<Longrightarrow> fst (hash_add cs ok h k v) = Inr ()"
proof -
  assume "total b \<le> used b + 1 \<and> \<not> ok"
  then have "grow_bucket ok (step h) b = None"
    using grow_bucket_None [of ok "step h" b] by blast
  then show "hash_add cs ok h k v = (Inl ENOMEM, h, [])"
    unfolding b_def by (rule hash_add_None)
next
  assume "\<not> (total b \<le> used b + 1 \<and> \<not> ok)"
  then have "grow_bucket ok (step h) b \<noteq> None"
    using grow_bucket_None [of ok "step h" b] by blast
  then obtain g where Some: "grow_bucket ok (step h) b = Some g" by blast
  show "fst (hash_add cs ok h k v) = Inr ()"
  proof (cases "scan_entries (snd k) (array_of (entries g)) 0 (used g)")
    case (Equal i)
    then show ?thesis using hash_add_Equal [OF Some [unfolded b_def] Equal] by simp
  next
    case (Less i)
    then show ?thesis using hash_add_Less [OF Some [unfolded b_def] Less] by simp
  next
    case (End i)
    then show ?thesis using hash_add_End [OF Some [unfolded b_def] End] by simp
  qed
qed

text \<open>
  Claim C9. \<open>hash_add\<close> returns success or \<open>-ENOMEM\<close> and nothing else; it returns
  \<open>-ENOMEM\<close> exactly when the capacity check asks for a larger array (\<open>used + 1 \<ge> total\<close>)
  and that \<^verbatim>\<open>realloc\<close> fails; the table it leaves is then the table it was given, and
  the destructor has not run.
\<close>

theorem hash_add_fails_only_enomem:
  assumes "hash_add cs ok h k v = (r, h', freed)"
  shows "(r = Inr () \<or> r = Inl ENOMEM)
         \<and> (r = Inl ENOMEM \<longleftrightarrow>
              total (buckets h ! bucket_pos cs h (snd k))
                \<le> used (buckets h ! bucket_pos cs h (snd k)) + 1 \<and> \<not> ok)
         \<and> (r = Inl ENOMEM \<longrightarrow> h' = h \<and> freed = [])"
proof (cases "total (buckets h ! bucket_pos cs h (snd k))
                \<le> used (buckets h ! bucket_pos cs h (snd k)) + 1 \<and> \<not> ok")
  case True
  then have "hash_add cs ok h k v = (Inl ENOMEM, h, [])" by (rule hash_add_result)
  then have "r = Inl ENOMEM" "h' = h" "freed = []" using assms by simp_all
  then show ?thesis using True by blast
next
  case False
  then have "fst (hash_add cs ok h k v) = Inr ()" by (rule hash_add_result)
  then have "r = Inr ()" using assms by simp
  then show ?thesis using False by blast
qed

theorem hash_add_fails_only_enomem_witness:
  "hash_add True False table_abc (103, [0x64]) 4 = (Inl ENOMEM, table_abc, [])
   \<and> total (buckets table_abc ! bucket_pos True table_abc (snd (103 :: ptr, [0x64 :: byte]))) = 4
   \<and> used (buckets table_abc ! bucket_pos True table_abc (snd (103 :: ptr, [0x64 :: byte]))) = 3"
proof -
  have "bucket_pos True table_abc [0x64] < length (buckets table_abc)"
    unfolding table_abc_def using hash_inv_build by (rule hash_inv_bucket)
  then have p: "bucket_pos True table_abc (snd (103 :: ptr, [0x64 :: byte])) = 0"
    by (simp add: table_abc_value)
  obtain r h' freed where o: "hash_add True False table_abc (103, [0x64]) 4 = (r, h', freed)"
    by (cases "hash_add True False table_abc (103, [0x64]) 4")
  have "r = Inl ENOMEM" "h' = table_abc" "freed = []"
    using hash_add_fails_only_enomem [OF o] p by (simp_all add: table_abc_value)
  then show ?thesis using o p by (simp add: table_abc_value)
qed

lemma frame_refl: "frame h pos h"
  by (simp add: frame_def)

lemma frame_update: "frame h pos (h\<lparr>buckets := (buckets h)[pos := g]\<rparr>)"
  by (simp add: frame_def)

lemma frame_update_count: "frame h pos (h\<lparr>count := c, buckets := (buckets h)[pos := g]\<rparr>)"
  by (simp add: frame_def)

lemma hash_add_frame: "frame h (bucket_pos cs h (snd k)) (fst (snd (hash_add cs ok h k v)))"
proof (cases "grow_bucket ok (step h) (buckets h ! bucket_pos cs h (snd k))")
  case None
  then show ?thesis by (simp add: hash_add_None frame_refl)
next
  case (Some g)
  show ?thesis
  proof (cases "scan_entries (snd k) (array_of (entries g)) 0 (used g)")
    case (Equal i)
    show ?thesis unfolding hash_add_Equal [OF Some Equal] by (simp add: frame_update)
  next
    case (Less i)
    show ?thesis unfolding hash_add_Less [OF Some Less] by (simp add: frame_update_count)
  next
    case (End i)
    show ?thesis unfolding hash_add_End [OF Some End] by (simp add: frame_update_count)
  qed
qed

lemma hash_add_unique_frame:
  "frame h (bucket_pos cs h (snd k)) (fst (snd (hash_add_unique cs ok h k v)))"
proof (cases "grow_bucket ok (step h) (buckets h ! bucket_pos cs h (snd k))")
  case None
  then show ?thesis by (simp add: hash_add_unique_None frame_refl)
next
  case (Some g)
  show ?thesis
  proof (cases "scan_entries (snd k) (array_of (entries g)) 0 (used g)")
    case (Equal i)
    show ?thesis unfolding hash_add_unique_Equal [OF Some Equal] by (simp add: frame_update)
  next
    case (Less i)
    show ?thesis unfolding hash_add_unique_Less [OF Some Less]
      by (simp add: frame_update_count)
  next
    case (End i)
    show ?thesis unfolding hash_add_unique_End [OF Some End]
      by (simp add: frame_update_count)
  qed
qed

lemma hash_del_frame: "frame h (bucket_pos cs h (snd k)) (fst (snd (hash_del cs ok h k)))"
proof (cases "entries (buckets h ! bucket_pos cs h (snd k)) = None")
  case True
  then show ?thesis by (simp add: hash_del_NULL frame_refl)
next
  case False
  show ?thesis
  proof (cases "bsearch \<lparr>key = k, value = NULL\<rparr>
                  (array_of (entries (buckets h ! bucket_pos cs h (snd k))))
                  0 (used (buckets h ! bucket_pos cs h (snd k)))")
    case None
    then show ?thesis by (simp add: hash_del_None frame_refl)
  next
    case (Some i)
    show ?thesis unfolding hash_del_Some [OF False Some] by (simp add: frame_update_count)
  qed
qed

lemma same_effect_update:
  "pos < length bs1 \<Longrightarrow> pos < length bs2 \<Longrightarrow>
   same_effect (r, h1\<lparr>buckets := bs1[pos := g]\<rparr>, f) (r, h2\<lparr>buckets := bs2[pos := g]\<rparr>, f) pos"
  by (simp add: same_effect_def)

lemma same_effect_update_count:
  "pos < length bs1 \<Longrightarrow> pos < length bs2 \<Longrightarrow>
   same_effect (r, h1\<lparr>count := c1, buckets := bs1[pos := g]\<rparr>, f)
               (r, h2\<lparr>count := c2, buckets := bs2[pos := g]\<rparr>, f) pos"
  by (simp add: same_effect_def)

lemma hash_add_reads:
  assumes v: "same_view h1 h2 (bucket_pos cs h1 (snd k))"
  shows "same_effect (hash_add cs ok h1 k v) (hash_add cs ok h2 k v) (bucket_pos cs h1 (snd k))"
proof -
  let ?pos = "bucket_pos cs h1 (snd k)"
  have p: "bucket_pos cs h2 (snd k) = ?pos"
    using v bucket_pos_cong [of h2 h1 cs "snd k"] by (simp add: same_view_def)
  have b: "buckets h2 ! bucket_pos cs h2 (snd k) = buckets h1 ! ?pos" and s: "step h2 = step h1"
    and f: "free_value h2 = free_value h1"
    and l: "?pos < length (buckets h1)" "?pos < length (buckets h2)"
    using v p by (simp_all add: same_view_def)
  show ?thesis
  proof (cases "grow_bucket ok (step h1) (buckets h1 ! ?pos)")
    case None
    then have "hash_add cs ok h1 k v = (Inl ENOMEM, h1, [])"
      "hash_add cs ok h2 k v = (Inl ENOMEM, h2, [])"
      using b s by (simp_all add: hash_add_None)
    then show ?thesis using v by (simp add: same_effect_def same_view_def)
  next
    case (Some g)
    then have Some2: "grow_bucket ok (step h2) (buckets h2 ! bucket_pos cs h2 (snd k)) = Some g"
      using b s by simp
    show ?thesis
    proof (cases "scan_entries (snd k) (array_of (entries g)) 0 (used g)")
      case (Equal i)
      show ?thesis
        unfolding hash_add_Equal [OF Some Equal] hash_add_Equal [OF Some2 Equal] p f
        using l by (rule same_effect_update)
    next
      case (Less i)
      show ?thesis
        unfolding hash_add_Less [OF Some Less] hash_add_Less [OF Some2 Less] p
        using l by (rule same_effect_update_count)
    next
      case (End i)
      show ?thesis
        unfolding hash_add_End [OF Some End] hash_add_End [OF Some2 End] p
        using l by (rule same_effect_update_count)
    qed
  qed
qed

lemma hash_add_unique_reads:
  assumes v: "same_view h1 h2 (bucket_pos cs h1 (snd k))"
  shows "same_effect (hash_add_unique cs ok h1 k v) (hash_add_unique cs ok h2 k v)
           (bucket_pos cs h1 (snd k))"
proof -
  let ?pos = "bucket_pos cs h1 (snd k)"
  have p: "bucket_pos cs h2 (snd k) = ?pos"
    using v bucket_pos_cong [of h2 h1 cs "snd k"] by (simp add: same_view_def)
  have b: "buckets h2 ! bucket_pos cs h2 (snd k) = buckets h1 ! ?pos" and s: "step h2 = step h1"
    and l: "?pos < length (buckets h1)" "?pos < length (buckets h2)"
    using v p by (simp_all add: same_view_def)
  show ?thesis
  proof (cases "grow_bucket ok (step h1) (buckets h1 ! ?pos)")
    case None
    then have "hash_add_unique cs ok h1 k v = (Inl ENOMEM, h1, [])"
      "hash_add_unique cs ok h2 k v = (Inl ENOMEM, h2, [])"
      using b s by (simp_all add: hash_add_unique_None)
    then show ?thesis using v by (simp add: same_effect_def same_view_def)
  next
    case (Some g)
    then have Some2: "grow_bucket ok (step h2) (buckets h2 ! bucket_pos cs h2 (snd k)) = Some g"
      using b s by simp
    show ?thesis
    proof (cases "scan_entries (snd k) (array_of (entries g)) 0 (used g)")
      case (Equal i)
      show ?thesis
        unfolding hash_add_unique_Equal [OF Some Equal] hash_add_unique_Equal [OF Some2 Equal] p
        using l by (rule same_effect_update)
    next
      case (Less i)
      show ?thesis
        unfolding hash_add_unique_Less [OF Some Less] hash_add_unique_Less [OF Some2 Less] p
        using l by (rule same_effect_update_count)
    next
      case (End i)
      show ?thesis
        unfolding hash_add_unique_End [OF Some End] hash_add_unique_End [OF Some2 End] p
        using l by (rule same_effect_update_count)
    qed
  qed
qed

lemma hash_del_reads:
  assumes v: "same_view h1 h2 (bucket_pos cs h1 (snd k))"
  shows "same_effect (hash_del cs ok h1 k) (hash_del cs ok h2 k) (bucket_pos cs h1 (snd k))"
proof -
  let ?pos = "bucket_pos cs h1 (snd k)"
  have p: "bucket_pos cs h2 (snd k) = ?pos"
    using v bucket_pos_cong [of h2 h1 cs "snd k"] by (simp add: same_view_def)
  have b: "buckets h2 ! bucket_pos cs h2 (snd k) = buckets h1 ! ?pos" and s: "step h2 = step h1"
    and f: "free_value h2 = free_value h1"
    and l: "?pos < length (buckets h1)" "?pos < length (buckets h2)"
    using v p by (simp_all add: same_view_def)
  show ?thesis
  proof (cases "entries (buckets h1 ! ?pos) = None")
    case True
    then have "hash_del cs ok h1 k = (Inl ENOENT, h1, [])"
      "hash_del cs ok h2 k = (Inl ENOENT, h2, [])"
      using b by (simp_all add: hash_del_NULL)
    then show ?thesis using v by (simp add: same_effect_def same_view_def)
  next
    case False
    then have False2: "entries (buckets h2 ! bucket_pos cs h2 (snd k)) \<noteq> None"
      using b by simp
    show ?thesis
    proof (cases "bsearch \<lparr>key = k, value = NULL\<rparr> (array_of (entries (buckets h1 ! ?pos)))
                    0 (used (buckets h1 ! ?pos))")
      case None
      then have "hash_del cs ok h1 k = (Inl ENOENT, h1, [])"
        "hash_del cs ok h2 k = (Inl ENOENT, h2, [])"
        using b by (simp_all add: hash_del_None)
      then show ?thesis using v by (simp add: same_effect_def same_view_def)
    next
      case (Some i)
      then have Some2: "bsearch \<lparr>key = k, value = NULL\<rparr>
            (array_of (entries (buckets h2 ! bucket_pos cs h2 (snd k))))
            0 (used (buckets h2 ! bucket_pos cs h2 (snd k))) = Some i"
        using b by simp
      show ?thesis
        unfolding hash_del_Some [OF False Some] hash_del_Some [OF False2 Some2] p
          b [unfolded p] s f
        using l by (rule same_effect_update_count)
    qed
  qed
qed

text \<open>
  Claim C10. \<open>hash_add\<close>, \<open>hash_add_unique\<close> and \<open>hash_del\<close> leave \<open>n_buckets\<close>, \<open>step\<close>,
  \<open>free_value\<close> and the number of buckets as they were, and every bucket other than the
  one at index \<open>hashval & (n_buckets - 1)\<close> keeps its \<open>entries\<close>, \<open>used\<close> and \<open>total\<close>,
  whatever the call returns. Nor do they read another bucket: on a second table that
  agrees with the first on these three fields and on that one bucket, the call returns
  the same code, frees the same values and leaves the same bucket.
\<close>

theorem mutators_touch_one_bucket:
  assumes "f = (\<lambda>h. hash_add cs ok h k v) \<or> f = (\<lambda>h. hash_add_unique cs ok h k v)
           \<or> f = (\<lambda>h. hash_del cs ok h k)"
  shows "n_buckets (fst (snd (f h))) = n_buckets h \<and> step (fst (snd (f h))) = step h
         \<and> free_value (fst (snd (f h))) = free_value h
         \<and> length (buckets (fst (snd (f h)))) = length (buckets h)
         \<and> (\<forall>i. i \<noteq> bucket_pos cs h (snd k)
                \<longrightarrow> buckets (fst (snd (f h))) ! i = buckets h ! i)
         \<and> (\<forall>h2. same_view h h2 (bucket_pos cs h (snd k))
                \<longrightarrow> same_effect (f h) (f h2) (bucket_pos cs h (snd k)))"
proof -
  have "frame h (bucket_pos cs h (snd k)) (fst (snd (f h)))"
    using assms hash_add_frame [of h cs k ok v] hash_add_unique_frame [of h cs k ok v]
      hash_del_frame [of h cs k ok]
    by auto
  moreover have "same_effect (f h) (f h2) (bucket_pos cs h (snd k))"
    if "same_view h h2 (bucket_pos cs h (snd k))" for h2
    using assms that hash_add_reads [of h h2 cs k ok v] hash_add_unique_reads [of h h2 cs k ok v]
      hash_del_reads [of h h2 cs k ok]
    by auto
  ultimately show ?thesis unfolding frame_def by blast
qed

lemma hash_entries_update:
  assumes "pos < length (buckets h)" and "live g = live (buckets h ! pos)"
  shows "hash_entries (h\<lparr>buckets := (buckets h)[pos := g]\<rparr>) = hash_entries h"
proof -
  have "map live ((buckets h)[pos := g]) = (map live (buckets h))[pos := live g]"
    by (rule map_update)
  also have "\<dots> = map live (buckets h)"
    using assms by (simp add: list_update_same_conv)
  finally show ?thesis by (simp add: hash_entries_def)
qed

lemma map_used_update:
  assumes "pos < length bs" and "used g = used (bs ! pos)"
  shows "map used (bs[pos := g]) = map used bs"
proof -
  have "map used (bs[pos := g]) = (map used bs)[pos := used g]" by (rule map_update)
  also have "\<dots> = map used bs" using assms by (simp add: list_update_same_conv)
  finally show ?thesis .
qed

lemma sorted_insert_fresh:
  assumes "sorted_wrt key_lt (take j xs @ e # drop j xs)"
  shows "\<forall>x \<in> set xs. snd (key x) \<noteq> snd (key e)"
proof -
  have "distinct (map (\<lambda>e. snd (key e)) (take j xs @ e # drop j xs))"
    using assms by (rule sorted_distinct_keys)
  then have "snd (key e) \<notin> set (map (\<lambda>e. snd (key e)) (take j xs))"
    "snd (key e) \<notin> set (map (\<lambda>e. snd (key e)) (drop j xs))"
    by auto
  moreover have "set xs = set (take j xs) \<union> set (drop j xs)"
    by (metis append_take_drop_id set_append)
  ultimately show ?thesis by (metis UnE image_eqI list.set_map)
qed

text \<open>
  Claim C1, as amended. For a well-formed table and a key that is in it,
  \<open>hash_add_unique\<close> frees nothing and changes no live entry, no \<open>used\<close> and not \<open>count\<close>.
  The capacity check comes before the scan, though: when the bucket has a spare slot
  beyond the next one (\<open>used + 1 < total\<close>) the call returns \<open>-EEXIST\<close> and the table is
  untouched; otherwise the bucket's array is first grown by \<open>step\<close> slots and the call
  returns \<open>-EEXIST\<close> with the larger \<open>total\<close>, or the \<^verbatim>\<open>realloc\<close> fails and the call returns
  \<open>-ENOMEM\<close> with the table untouched.
\<close>

theorem hash_add_unique_present:
  assumes inv: "hash_inv cs h" and pres: "snd k \<in> set (hash_keys h)"
  shows "\<exists>r h'. hash_add_unique cs ok h k v = (r, h', [])
           \<and> count h' = count h \<and> hash_entries h' = hash_entries h
           \<and> map used (buckets h') = map used (buckets h)
           \<and> (if used (buckets h ! bucket_pos cs h (snd k)) + 1
                  < total (buckets h ! bucket_pos cs h (snd k))
               then r = Inl EEXIST \<and> h' = h
               else if ok
               then r = Inl EEXIST
                 \<and> map total (buckets h')
                   = (map total (buckets h))[bucket_pos cs h (snd k) :=
                       total (buckets h ! bucket_pos cs h (snd k)) + step h]
               else r = Inl ENOMEM \<and> h' = h)"
proof -
  let ?pos = "bucket_pos cs h (snd k)"
  let ?b = "buckets h ! ?pos"
  have pos: "?pos < length (buckets h)" using inv by (rule hash_inv_bucket)
  have here: "\<exists>e \<in> set (live ?b). snd (key e) = snd k"
    using pres hash_keys_bucket [OF inv] by simp
  from inv show ?thesis
  proof (cases rule: hash_add_unique_cases [where ok = ok and k = k and v = v])
    case nomem
    then show ?thesis by simp
  next
    case (present i g)
    let ?h' = "h\<lparr>buckets := (buckets h)[?pos := g]\<rparr>"
    have e: "hash_entries ?h' = hash_entries h"
      using pos present(4) by (rule hash_entries_update)
    have u: "map used (buckets ?h') = map used (buckets h)"
      using map_used_update [OF pos present(5)] by simp
    show ?thesis
    proof (cases "used ?b + 1 < total ?b")
      case True
      then have "g = ?b" using present(9) by simp
      then have "?h' = h" by simp
      then show ?thesis using present(3) True by simp
    next
      case False
      then have ok: ok and t: "total g = total ?b + step h" using present(6,8) by simp_all
      have "map total (buckets ?h') = (map total (buckets h))[?pos := total ?b + step h]"
        using t by (simp add: map_update)
      then show ?thesis using present(3) False ok e u by simp
    qed
  next
    case (insert j g)
    have "sorted_wrt key_lt (live g)" using insert(8) by (simp add: bucket_inv_def)
    then have "\<forall>x \<in> set (live ?b). snd (key x) \<noteq> snd (key \<lparr>key = k, value = v\<rparr>)"
      unfolding insert(5) by (rule sorted_insert_fresh)
    then show ?thesis using here by simp
  qed
qed

lemma table_abc_facts:
  "hash_inv True table_abc" "snd key_a2 \<in> set (hash_keys table_abc)"
  "bucket_pos True table_abc (snd key_a2) = 0"
proof -
  show inv: "hash_inv True table_abc" unfolding table_abc_def by (rule hash_inv_build)
  show "snd key_a2 \<in> set (hash_keys table_abc)"
    by (simp add: table_abc_value hash_keys_def hash_entries_def live_def array_of_def
        key_a2_def key_a_def)
  have "bucket_pos True table_abc (snd key_a2) < length (buckets table_abc)"
    using inv by (rule hash_inv_bucket)
  then show "bucket_pos True table_abc (snd key_a2) = 0" by (simp add: table_abc_value)
qed

theorem hash_add_unique_present_witness:
  "hash_inv True table_abc \<and> snd key_a2 \<in> set (hash_keys table_abc)
   \<and> fst (hash_add_unique True True table_abc key_a2 9) = Inl EEXIST
   \<and> snd (snd (hash_add_unique True True table_abc key_a2 9)) = []
   \<and> count (fst (snd (hash_add_unique True True table_abc key_a2 9))) = 3
   \<and> hash_entries (fst (snd (hash_add_unique True True table_abc key_a2 9)))
     = hash_entries table_abc
   \<and> map total (buckets (fst (snd (hash_add_unique True True table_abc key_a2 9)))) = [8]"
proof -
  have "used (buckets table_abc ! 0) = 3" "total (buckets table_abc ! 0) = 4"
    "step table_abc = 4" "count table_abc = 3" "map total (buckets table_abc) = [4]"
    by (simp_all add: table_abc_value)
  then show ?thesis
    using hash_add_unique_present [OF table_abc_facts(1,2), of True 9] table_abc_facts
    by auto
qed

text \<open>
  The table of one bucket that holds "a", "b" and "c" has \<open>used = 3\<close> and \<open>total = 4\<close>.
  \<open>hash_add_unique\<close> with the key "a" finds \<open>used + 1 >= total\<close>, grows the array to 8 slots
  and only then meets the equal key: it returns \<open>-EEXIST\<close> and the capacity has changed.
  When that \<^verbatim>\<open>realloc\<close> fails the call returns \<open>-ENOMEM\<close>, not \<open>-EEXIST\<close>.
\<close>

theorem hash_add_unique_present_counterexample:
  "snd key_a2 \<in> set (hash_keys table_abc)
   \<and> total (buckets table_abc ! 0) = 4
   \<and> fst (hash_add_unique True True table_abc key_a2 9) = Inl EEXIST
   \<and> total (buckets (fst (snd (hash_add_unique True True table_abc key_a2 9))) ! 0) = 8
   \<and> fst (snd (hash_add_unique True True table_abc key_a2 9)) \<noteq> table_abc
   \<and> fst (hash_add_unique True False table_abc key_a2 9) = Inl ENOMEM"
proof -
  have t: "hash_add_unique True True table_abc key_a2 9
        = (Inl EEXIST,
           table_abc\<lparr>buckets :=
             [\<lparr>entries = Some [\<lparr>key = key_a, value = 1\<rparr>, \<lparr>key = key_b, value = 2\<rparr>,
                 \<lparr>key = key_c, value = 3\<rparr>, indeterminate, indeterminate, indeterminate,
                 indeterminate, indeterminate],
               used = 3, total = 8\<rparr>]\<rparr>, [])"
    unfolding table_abc_value by code_simp
  have f: "hash_add_unique True False table_abc key_a2 9 = (Inl ENOMEM, table_abc, [])"
    unfolding table_abc_value by code_simp
  show ?thesis
    unfolding t f using table_abc_facts(2) by (simp add: table_abc_value)
qed

lemma table_abcd_value:
  "table_abcd =
     \<lparr>count = 4, step = 4, n_buckets = 1, free_value = NULL,
      buckets =
        [\<lparr>entries = Some [\<lparr>key = key_a, value = 1\<rparr>, \<lparr>key = key_b, value = 2\<rparr>,
                          \<lparr>key = key_c, value = 3\<rparr>, \<lparr>key = key_d, value = 4\<rparr>,
                          indeterminate, indeterminate, indeterminate, indeterminate],
          used = 4, total = 8\<rparr>]\<rparr>"
  unfolding table_abcd_def table_abc_value by code_simp

lemma table_abcd_facts:
  "hash_inv True table_abcd" "snd key_d \<in> set (hash_keys table_abcd)"
  "bucket_pos True table_abcd (snd key_d) = 0"
proof -
  show inv: "hash_inv True table_abcd"
    unfolding table_abcd_def using table_abc_facts(1)
    by (rule hash_add_inv [where r = "fst (hash_add True True table_abc key_d 4)"
          and freed = "snd (snd (hash_add True True table_abc key_d 4))"]) simp
  show "snd key_d \<in> set (hash_keys table_abcd)"
    by (simp add: table_abcd_value hash_keys_def hash_entries_def live_def array_of_def)
  have "bucket_pos True table_abcd (snd key_d) < length (buckets table_abcd)"
    using inv by (rule hash_inv_bucket)
  then show "bucket_pos True table_abcd (snd key_d) = 0" by (simp add: table_abcd_value)
qed

text \<open>
  Claim C3. On a well-formed table, \<open>hash_del\<close> of a key that is in the table returns
  success; the destructor, when set, is called once, on the value of the entry found;
  the live entries after it move one slot down; \<open>used\<close> and \<open>count\<close> drop by one; and the
  bucket's \<open>total\<close> becomes \<open>(used / step + 1) * step\<close> (with the new \<open>used\<close>) exactly when
  \<open>used / step + 1 < total / step\<close> and the \<^verbatim>\<open>realloc\<close> succeeds, and stays as it was
  otherwise. In both cases the array the bucket points to has exactly \<open>total\<close> slots
  afterwards: the shrink is a reallocation to the new size, not only a new number.
\<close>

theorem hash_del_present:
  assumes inv: "hash_inv cs h" and pres: "snd k \<in> set (hash_keys h)"
  shows "\<exists>i h'. i < used (buckets h ! bucket_pos cs h (snd k))
           \<and> snd (key (live (buckets h ! bucket_pos cs h (snd k)) ! i)) = snd k
           \<and> hash_del cs ok h k =
               (Inr (), h',
                if free_value h \<noteq> NULL
                then [value (live (buckets h ! bucket_pos cs h (snd k)) ! i)] else [])
           \<and> live (buckets h' ! bucket_pos cs h (snd k))
               = take i (live (buckets h ! bucket_pos cs h (snd k)))
                 @ drop (i + 1) (live (buckets h ! bucket_pos cs h (snd k)))
           \<and> used (buckets h' ! bucket_pos cs h (snd k)) + 1
               = used (buckets h ! bucket_pos cs h (snd k))
           \<and> count h' + 1 = count h
           \<and> total (buckets h' ! bucket_pos cs h (snd k))
               = (if used (buckets h' ! bucket_pos cs h (snd k)) div step h + 1
                      < total (buckets h ! bucket_pos cs h (snd k)) div step h \<and> ok
                  then (used (buckets h' ! bucket_pos cs h (snd k)) div step h + 1) * step h
                  else total (buckets h ! bucket_pos cs h (snd k)))
           \<and> length (array_of (entries (buckets h' ! bucket_pos cs h (snd k))))
               = total (buckets h' ! bucket_pos cs h (snd k))"
proof -
  let ?pos = "bucket_pos cs h (snd k)"
  let ?b = "buckets h ! ?pos"
  have pos: "?pos < length (buckets h)" using inv by (rule hash_inv_bucket)
  have here: "\<exists>e \<in> set (live ?b). snd (key e) = snd k"
    using pres hash_keys_bucket [OF inv] by simp
  from inv show ?thesis
  proof (cases rule: hash_del_cases [where ok = ok and k = k])
    case absent
    then show ?thesis using here by blast
  next
    case (removed i g)
    let ?h' = "h\<lparr>count := count h - 1, buckets := (buckets h)[?pos := g]\<rparr>"
    have g: "buckets ?h' ! ?pos = g" using pos by simp
    have "used ?b \<le> count h" using inv pos by (rule count_ge_used)
    then have c: "count ?h' + 1 = count h" using removed(1) by simp
    have u: "used (buckets ?h' ! ?pos) + 1 = used ?b" using removed(1,5) g by simp
    have t: "total (buckets ?h' ! ?pos)
             = (if used (buckets ?h' ! ?pos) div step h + 1 < total ?b div step h \<and> ok
                then (used (buckets ?h' ! ?pos) div step h + 1) * step h else total ?b)"
      using removed(5,6) g by simp
    have l: "live (buckets ?h' ! ?pos) = take i (live ?b) @ drop (i + 1) (live ?b)"
      using removed(4) g by simp
    have a: "length (array_of (entries (buckets ?h' ! ?pos))) = total (buckets ?h' ! ?pos)"
      using removed(7) g by (simp add: bucket_inv_def)
    show ?thesis
      using removed(1,2,3) l u c t a by blast
  qed
qed

theorem hash_del_present_witness:
  "hash_inv True table_abcd \<and> snd key_d \<in> set (hash_keys table_abcd)
   \<and> total (buckets table_abcd ! 0) = 8
   \<and> fst (hash_del True True table_abcd key_d) = Inr ()
   \<and> total (buckets (fst (snd (hash_del True True table_abcd key_d))) ! 0) = 4
   \<and> length (array_of (entries (buckets (fst (snd (hash_del True True table_abcd key_d)))
        ! 0))) = 4
   \<and> used (buckets (fst (snd (hash_del True True table_abcd key_d))) ! 0) = 3
   \<and> count (fst (snd (hash_del True True table_abcd key_d))) = 3
   \<and> fst (hash_del True False table_abcd key_d) = Inr ()
   \<and> total (buckets (fst (snd (hash_del True False table_abcd key_d))) ! 0) = 8
   \<and> length (array_of (entries (buckets (fst (snd (hash_del True False table_abcd key_d)))
        ! 0))) = 8"
proof -
  have v: "used (buckets table_abcd ! 0) = 4" "total (buckets table_abcd ! 0) = 8"
    "step table_abcd = 4" "count table_abcd = 4"
    by (simp_all add: table_abcd_value)
  show ?thesis
    using hash_del_present [OF table_abcd_facts(1,2), of True]
      hash_del_present [OF table_abcd_facts(1,2), of False] table_abcd_facts v
    by auto
qed

lemma table_ab_owned_value:
  "table_ab_owned =
     \<lparr>count = 2, step = 4, n_buckets = 8, free_value = 7,
      buckets =
        [\<lparr>entries = None, used = 0, total = 0\<rparr>,
         \<lparr>entries = Some [\<lparr>key = key_b, value = 2\<rparr>, indeterminate, indeterminate,
                          indeterminate],
          used = 1, total = 4\<rparr>,
         \<lparr>entries = Some [\<lparr>key = key_a, value = 1\<rparr>, indeterminate, indeterminate,
                          indeterminate],
          used = 1, total = 4\<rparr>,
         \<lparr>entries = None, used = 0, total = 0\<rparr>,
         \<lparr>entries = None, used = 0, total = 0\<rparr>,
         \<lparr>entries = None, used = 0, total = 0\<rparr>,
         \<lparr>entries = None, used = 0, total = 0\<rparr>,
         \<lparr>entries = None, used = 0, total = 0\<rparr>]\<rparr>"
  by code_simp

lemma table_ab_owned_pos:
  "bucket_pos True table_ab_owned (snd key_b) = 1"
  "bucket_pos True table_ab_owned (snd key_a) = 2"
  unfolding table_ab_owned_value by code_simp+

theorem mutators_touch_one_bucket_witness:
  "bucket_pos True table_ab_owned (snd key_b) = 1
   \<and> n_buckets (fst (snd (hash_del True True table_ab_owned key_b))) = 8
   \<and> step (fst (snd (hash_del True True table_ab_owned key_b))) = 4
   \<and> free_value (fst (snd (hash_del True True table_ab_owned key_b))) = 7
   \<and> length (buckets (fst (snd (hash_del True True table_ab_owned key_b)))) = 8
   \<and> buckets (fst (snd (hash_del True True table_ab_owned key_b))) ! 2
     = buckets table_ab_owned ! 2
   \<and> same_view table_ab_owned (table_ab_owned\<lparr>count := 99\<rparr>) 1
   \<and> same_effect (hash_del True True table_ab_owned key_b)
        (hash_del True True (table_ab_owned\<lparr>count := 99\<rparr>) key_b) 1"
proof -
  have v: "same_view table_ab_owned (table_ab_owned\<lparr>count := 99\<rparr>) 1"
    by (simp add: same_view_def table_ab_owned_value)
  have s: "n_buckets table_ab_owned = 8" "step table_ab_owned = 4"
    "free_value table_ab_owned = 7" "length (buckets table_ab_owned) = 8"
    by (simp_all add: table_ab_owned_value)
  show ?thesis
    using mutators_touch_one_bucket
      [of "\<lambda>h. hash_del True True h key_b" True True key_b _ table_ab_owned]
      table_ab_owned_pos(1) v s
    by simp
qed

lemma hash_add_stores:
  assumes inv: "hash_inv cs h" and r: "hash_add cs ok h k v = (Inr (), h', freed)"
  shows "\<lparr>key = k, value = v\<rparr> \<in> set (live (buckets h' ! bucket_pos cs h (snd k)))"
    and "n_buckets h' = n_buckets h" and "free_value h' = free_value h"
proof -
  let ?pos = "bucket_pos cs h (snd k)"
  have pos: "?pos < length (buckets h)" using inv by (rule hash_inv_bucket)
  have f: "frame h ?pos h'" using hash_add_frame [of h cs k ok v] r by simp
  then show "n_buckets h' = n_buckets h" "free_value h' = free_value h"
    by (simp_all add: frame_def)
  from inv show "\<lparr>key = k, value = v\<rparr> \<in> set (live (buckets h' ! ?pos))"
  proof (cases rule: hash_add_cases [where ok = ok and k = k and v = v])
    case nomem
    then show ?thesis using r by simp
  next
    case (replace i g)
    have "length (live (buckets h ! ?pos)) = used (buckets h ! ?pos)"
      using hash_inv_bucket(2) [OF inv, of "snd k"]
      by (intro length_live) (auto simp: bucket_inv_def)
    then have "\<lparr>key = k, value = v\<rparr> \<in> set (live g)"
      unfolding replace(4) using replace(1) by (simp add: set_update_memI)
    moreover have "buckets h' ! ?pos = g" using r replace(3) pos by auto
    ultimately show ?thesis by simp
  next
    case (insert j g)
    have "\<lparr>key = k, value = v\<rparr> \<in> set (live g)" unfolding insert(5) by simp
    moreover have "buckets h' ! ?pos = g" using r insert(4) pos by auto
    ultimately show ?thesis by simp
  qed
qed

lemma hash_find_present:
  assumes inv: "hash_inv cs h"
    and e: "e \<in> set (live (buckets h ! bucket_pos cs h (snd k)))" "snd (key e) = snd k"
  shows "hash_find cs h k = (value e, h, [])"
proof -
  let ?b = "buckets h ! bucket_pos cs h (snd k)"
  have binv: "bucket_inv cs h (bucket_pos cs h (snd k)) ?b" using inv by (rule hash_inv_bucket)
  then have srt: "sorted_wrt key_lt (live ?b)" and len: "length (live ?b) = used ?b"
    by (auto simp: bucket_inv_def intro: length_live)
  obtain m where m: "m < length (live ?b)" "live ?b ! m = e"
    using e(1) by (auto simp: in_set_conv_nth)
  from inv show ?thesis
  proof (cases rule: hash_find_cases [where k = k])
    case absent
    then show ?thesis using e by blast
  next
    case (found i)
    have "i = m"
      using srt _ m(1) by (rule sorted_key_unique) (simp_all add: found len m e)
    then show ?thesis using found(3) m by simp
  qed
qed

lemma hash_find_absent:
  assumes inv: "hash_inv cs h" and a: "snd k \<notin> set (hash_keys h)"
  shows "hash_find cs h k = (NULL, h, [])"
proof -
  let ?b = "buckets h ! bucket_pos cs h (snd k)"
  have binv: "bucket_inv cs h (bucket_pos cs h (snd k)) ?b" using inv by (rule hash_inv_bucket)
  then have len: "length (live ?b) = used ?b"
    by (auto simp: bucket_inv_def intro: length_live)
  have none: "\<forall>e \<in> set (live ?b). snd (key e) \<noteq> snd k"
    using a hash_keys_bucket [OF inv, of "snd k"] by blast
  from inv show ?thesis
  proof (cases rule: hash_find_cases [where k = k])
    case absent
    then show ?thesis by simp
  next
    case (found i)
    then have "live ?b ! i \<in> set (live ?b)" using len by simp
    then show ?thesis using none found(2) by blast
  qed
qed

text \<open>
  Claim C8. On a well-formed table, a successful \<open>hash_add\<close> of a pair is followed by a
  \<open>hash_find\<close> of that key returning the value (whether or not the key was there
  before); and \<open>hash_find\<close> of a key that has no entry returns \<open>NULL\<close>, hands the table
  back as it was and frees nothing. \<open>hash_find\<close> has no error return.
\<close>

theorem hash_add_find_roundtrip:
  assumes inv: "hash_inv cs h"
  shows "(hash_add cs ok h k v = (Inr (), h', freed) \<longrightarrow> hash_find cs h' k = (v, h', []))
         \<and> (snd k \<notin> set (hash_keys h) \<longrightarrow> hash_find cs h k = (NULL, h, []))"
proof (intro conjI impI)
  assume r: "hash_add cs ok h k v = (Inr (), h', freed)"
  have inv': "hash_inv cs h'" using inv r by (rule hash_add_inv)
  note st = hash_add_stores [OF inv r]
  have p: "bucket_pos cs h' (snd k) = bucket_pos cs h (snd k)"
    using st(2) by (rule bucket_pos_cong)
  have "hash_find cs h' k = (value \<lparr>key = k, value = v\<rparr>, h', [])"
    using inv' by (rule hash_find_present) (simp_all add: p st(1))
  then show "hash_find cs h' k = (v, h', [])" by simp
next
  assume "snd k \<notin> set (hash_keys h)"
  with inv show "hash_find cs h k = (NULL, h, [])" by (rule hash_find_absent)
qed

lemma table_abc_add_d: "hash_add True True table_abc key_d 4 = (Inr (), table_abcd, [])"
proof -
  have "fst (hash_add True True table_abc key_d 4) = Inr ()"
    by (rule hash_add_result) simp
  moreover have "snd (snd (hash_add True True table_abc key_d 4)) = []"
    unfolding table_abc_value by code_simp
  ultimately show ?thesis
    unfolding table_abcd_def by (metis prod.collapse)
qed

theorem hash_add_find_roundtrip_witness:
  "hash_inv True table_abc
   \<and> hash_add True True table_abc key_d 4 = (Inr (), table_abcd, [])
   \<and> hash_find True table_abcd key_d = (4, table_abcd, [])
   \<and> snd key_d \<notin> set (hash_keys table_abc)
   \<and> hash_find True table_abc key_d = (NULL, table_abc, [])"
proof -
  have a: "snd key_d \<notin> set (hash_keys table_abc)"
    by (simp add: table_abc_value hash_keys_def hash_entries_def live_def array_of_def
        key_a_def key_b_def key_c_def key_d_def)
  show ?thesis
    using hash_add_find_roundtrip [OF table_abc_facts(1), of True key_d 4 table_abcd "[]"]
      table_abc_add_d a table_abc_facts(1)
    by simp
qed

lemma distinct_bucket_keys:
  assumes "\<forall>j<length bs. distinct (map (\<lambda>e. snd (key e)) (live (bs ! j)))
             \<and> (\<forall>e \<in> set (live (bs ! j)). P (snd (key e)) = off + j)"
  shows "distinct (concat (map (\<lambda>b. map (\<lambda>e. snd (key e)) (live b)) bs))"
  using assms
proof (induction bs arbitrary: off)
  case Nil
  then show ?case by simp
next
  case (Cons b bs)
  have b: "distinct (map (\<lambda>e. snd (key e)) (live b))"
    "\<forall>e \<in> set (live b). P (snd (key e)) = off"
    using Cons.prems [rule_format, of 0] by simp_all
  have rest: "\<forall>j<length bs. distinct (map (\<lambda>e. snd (key e)) (live (bs ! j)))
             \<and> (\<forall>e \<in> set (live (bs ! j)). P (snd (key e)) = Suc off + j)"
  proof (intro allI impI)
    fix j assume "j < length bs"
    then show "distinct (map (\<lambda>e. snd (key e)) (live (bs ! j)))
             \<and> (\<forall>e \<in> set (live (bs ! j)). P (snd (key e)) = Suc off + j)"
      using Cons.prems [rule_format, of "Suc j"] by simp
  qed
  then have d: "distinct (concat (map (\<lambda>b. map (\<lambda>e. snd (key e)) (live b)) bs))"
    by (rule Cons.IH)
  have "P x \<noteq> off"
    if "x \<in> set (concat (map (\<lambda>b. map (\<lambda>e. snd (key e)) (live b)) bs))" for x
  proof -
    from that obtain c e where "c \<in> set bs" "e \<in> set (live c)" "x = snd (key e)" by auto
    then obtain j where "j < length bs" "c = bs ! j" by (auto simp: in_set_conv_nth)
    then show ?thesis using rest \<open>e \<in> set (live c)\<close> \<open>x = snd (key e)\<close> by auto
  qed
  then have "set (map (\<lambda>e. snd (key e)) (live b))
             \<inter> set (concat (map (\<lambda>b. map (\<lambda>e. snd (key e)) (live b)) bs)) = {}"
    using b(2) by auto
  then show ?case using b(1) d by simp
qed

lemma distinct_hash_keys:
  assumes inv: "hash_inv cs h"
  shows "distinct (hash_keys h)"
proof -
  have "\<forall>j<length (buckets h). distinct (map (\<lambda>e. snd (key e)) (live (buckets h ! j)))
          \<and> (\<forall>e \<in> set (live (buckets h ! j)). bucket_pos cs h (snd (key e)) = 0 + j)"
  proof (intro allI impI)
    fix j assume "j < length (buckets h)"
    then have "bucket_inv cs h j (buckets h ! j)" using inv by (simp add: hash_inv_def)
    then show "distinct (map (\<lambda>e. snd (key e)) (live (buckets h ! j)))
          \<and> (\<forall>e \<in> set (live (buckets h ! j)). bucket_pos cs h (snd (key e)) = 0 + j)"
      by (simp add: bucket_inv_def sorted_distinct_keys list_all_iff)
  qed
  then have "distinct (concat (map (\<lambda>b. map (\<lambda>e. snd (key e)) (live b)) (buckets h)))"
    by (rule distinct_bucket_keys)
  then show ?thesis by (simp add: hash_keys_def hash_entries_def map_concat comp_def)
qed

lemma filter_distinct_key:
  assumes "distinct (map f xs)" and "x \<in> set xs"
  shows "filter (\<lambda>e. f e = f x) xs = [x]"
  using assms
proof (induction xs)
  case Nil
  then show ?case by simp
next
  case (Cons a xs)
  show ?case
  proof (cases "a = x")
    case True
    then have "f x \<notin> f ` set xs" using Cons.prems(1) by simp
    then have "\<forall>e \<in> set xs. f e \<noteq> f x" by (metis imageI)
    then have "filter (\<lambda>e. f e = f x) xs = []" by (simp add: filter_empty_conv)
    then show ?thesis using True by simp
  next
    case False
    then have "x \<in> set xs" using Cons.prems(2) by simp
    then have "f a \<noteq> f x" using Cons.prems(1) by (metis distinct.simps(2) imageI list.simps(9) list.set_map)
    then show ?thesis using Cons \<open>x \<in> set xs\<close> by simp
  qed
qed

lemma hash_add_present:
  assumes inv: "hash_inv cs h"
    and e: "e \<in> set (live (buckets h ! bucket_pos cs h (snd k)))" "snd (key e) = snd k"
    and r: "hash_add cs ok h k v = (Inr (), h', freed)"
  shows "freed = (if free_value h \<noteq> NULL then [value e] else [])" and "count h' = count h"
proof -
  let ?b = "buckets h ! bucket_pos cs h (snd k)"
  have binv: "bucket_inv cs h (bucket_pos cs h (snd k)) ?b" using inv by (rule hash_inv_bucket)
  then have srt: "sorted_wrt key_lt (live ?b)" and len: "length (live ?b) = used ?b"
    by (auto simp: bucket_inv_def intro: length_live)
  obtain m where m: "m < length (live ?b)" "live ?b ! m = e"
    using e(1) by (auto simp: in_set_conv_nth)
  from inv have "freed = (if free_value h \<noteq> NULL then [value e] else []) \<and> count h' = count h"
  proof (cases rule: hash_add_cases [where ok = ok and k = k and v = v])
    case nomem
    then show ?thesis using r by simp
  next
    case (replace i g)
    have "i = m"
      using srt _ m(1) by (rule sorted_key_unique) (simp_all add: replace len m e)
    then show ?thesis using r replace(3) m by auto
  next
    case (insert j g)
    have "sorted_wrt key_lt (live g)" using insert(8) by (simp add: bucket_inv_def)
    then have "\<forall>x \<in> set (live ?b). snd (key x) \<noteq> snd (key \<lparr>key = k, value = v\<rparr>)"
      unfolding insert(5) by (rule sorted_insert_fresh)
    then show ?thesis using e by simp
  qed
  then show "freed = (if free_value h \<noteq> NULL then [value e] else [])" "count h' = count h"
    by simp_all
qed

lemma live_in_hash_entries:
  "pos < length (buckets h) \<Longrightarrow> e \<in> set (live (buckets h ! pos)) \<Longrightarrow> e \<in> set (hash_entries h)"
  by (auto simp: hash_entries_def)

lemma hash_entries_bucket:
  assumes inv: "hash_inv cs h" and e: "e \<in> set (hash_entries h)"
  shows "e \<in> set (live (buckets h ! bucket_pos cs h (snd (key e))))"
proof -
  obtain b where b: "b \<in> set (buckets h)" "e \<in> set (live b)"
    using e by (auto simp: hash_entries_def)
  then obtain i where i: "i < length (buckets h)" "b = buckets h ! i"
    by (auto simp: in_set_conv_nth)
  have "bucket_inv cs h i b" using inv i by (simp add: hash_inv_def)
  then have "bucket_pos cs h (snd (key e)) = i"
    using b(2) by (simp add: bucket_inv_def list_all_iff)
  then show ?thesis using b(2) i(2) by simp
qed

lemma hash_add_absent:
  assumes inv: "hash_inv cs h" and a: "snd k \<notin> set (hash_keys h)"
    and r: "hash_add cs ok h k v = (Inr (), h', freed)"
  shows "freed = []" and "count h' = count h + 1"
proof -
  let ?b = "buckets h ! bucket_pos cs h (snd k)"
  have binv: "bucket_inv cs h (bucket_pos cs h (snd k)) ?b" using inv by (rule hash_inv_bucket)
  then have len: "length (live ?b) = used ?b"
    by (auto simp: bucket_inv_def intro: length_live)
  have none: "\<forall>e \<in> set (live ?b). snd (key e) \<noteq> snd k"
    using a hash_keys_bucket [OF inv, of "snd k"] by blast
  from inv have "freed = [] \<and> count h' = count h + 1"
  proof (cases rule: hash_add_cases [where ok = ok and k = k and v = v])
    case nomem
    then show ?thesis using r by simp
  next
    case (replace i g)
    then have "live ?b ! i \<in> set (live ?b)" using len by simp
    then show ?thesis using none replace(2) by blast
  next
    case (insert j g)
    then show ?thesis using r by auto
  qed
  then show "freed = []" "count h' = count h + 1" by simp_all
qed

lemma hash_add_outcome:
  assumes "hash_add cs ok h k v = (r, h', freed)"
  shows "r = Inr () \<or> (r = Inl ENOMEM \<and> \<not> ok \<and> h' = h \<and> freed = [])"
proof (cases "total (buckets h ! bucket_pos cs h (snd k))
                \<le> used (buckets h ! bucket_pos cs h (snd k)) + 1 \<and> \<not> ok")
  case True
  then have "hash_add cs ok h k v = (Inl ENOMEM, h, [])" by (rule hash_add_result)
  then show ?thesis using assms True by simp
next
  case False
  then have "fst (hash_add cs ok h k v) = Inr ()" by (rule hash_add_result)
  then show ?thesis using assms by simp
qed

text \<open>
  Claim C7, as amended. On a well-formed table, take two calls of \<open>hash_add\<close> with keys of
  the same bytes (the pointers may differ). Each call succeeds, or its \<^verbatim>\<open>realloc\<close> has
  failed and it returns \<open>-ENOMEM\<close>, leaving the table as it was and freeing nothing. When
  both have succeeded: \<open>hash_find\<close> returns the second value; the second call has run the
  destructor, if one is set, exactly once, on the first value, and has not changed the
  count; the first call has run it only if the key was already in the table, and then
  once, on the value it replaced, so that for a key new to the table the two calls run it
  exactly once; and the table holds exactly one entry with these key bytes, carrying the
  second key pointer and the second value.
\<close>

theorem hash_add_twice:
  assumes inv: "hash_inv cs h" and same: "snd k2 = snd k1"
    and o1: "hash_add cs ok1 h k1 v1 = (r1, h1, f1)"
    and o2: "hash_add cs ok2 h1 k2 v2 = (r2, h2, f2)"
  shows "(r1 = Inr () \<or> (r1 = Inl ENOMEM \<and> \<not> ok1 \<and> h1 = h \<and> f1 = []))
         \<and> (r2 = Inr () \<or> (r2 = Inl ENOMEM \<and> \<not> ok2 \<and> h2 = h1 \<and> f2 = []))
         \<and> (r1 = Inr () \<and> r2 = Inr () \<longrightarrow>
              hash_find cs h2 k2 = (v2, h2, [])
              \<and> f2 = (if free_value h \<noteq> NULL then [v1] else [])
              \<and> (snd k1 \<notin> set (hash_keys h) \<longrightarrow> f1 = [])
              \<and> (\<forall>e \<in> set (hash_entries h). snd (key e) = snd k1 \<longrightarrow>
                    f1 = (if free_value h \<noteq> NULL then [value e] else []))
              \<and> hash_get_count h2 = hash_get_count h1
              \<and> filter (\<lambda>e. snd (key e) = snd k2) (hash_entries h2)
                  = [\<lparr>key = k2, value = v2\<rparr>])"
proof (intro conjI impI ballI)
  show "r1 = Inr () \<or> (r1 = Inl ENOMEM \<and> \<not> ok1 \<and> h1 = h \<and> f1 = [])"
    using o1 by (rule hash_add_outcome)
  show "r2 = Inr () \<or> (r2 = Inl ENOMEM \<and> \<not> ok2 \<and> h2 = h1 \<and> f2 = [])"
    using o2 by (rule hash_add_outcome)
next
  assume s: "r1 = Inr () \<and> r2 = Inr ()" and a: "snd k1 \<notin> set (hash_keys h)"
  have a1: "hash_add cs ok1 h k1 v1 = (Inr (), h1, f1)" using o1 s by simp
  show "f1 = []" using inv a a1 by (rule hash_add_absent)
next
  fix e
  assume s: "r1 = Inr () \<and> r2 = Inr ()" and e: "e \<in> set (hash_entries h)"
    and k: "snd (key e) = snd k1"
  have a1: "hash_add cs ok1 h k1 v1 = (Inr (), h1, f1)" using o1 s by simp
  have "e \<in> set (live (buckets h ! bucket_pos cs h (snd k1)))"
    using hash_entries_bucket [OF inv e] k by simp
  then show "f1 = (if free_value h \<noteq> NULL then [value e] else [])"
    using hash_add_present(1) [OF inv _ k a1] by simp
next
  assume s: "r1 = Inr () \<and> r2 = Inr ()"
  have a1: "hash_add cs ok1 h k1 v1 = (Inr (), h1, f1)" using o1 s by simp
  have a2: "hash_add cs ok2 h1 k2 v2 = (Inr (), h2, f2)" using o2 s by simp
  have inv1: "hash_inv cs h1" using inv a1 by (rule hash_add_inv)
  have inv2: "hash_inv cs h2" using inv1 a2 by (rule hash_add_inv)
  note st1 = hash_add_stores [OF inv a1]
  note st2 = hash_add_stores [OF inv1 a2]
  have p1: "bucket_pos cs h1 (snd k2) = bucket_pos cs h (snd k1)"
    using bucket_pos_cong [OF st1(2)] same by simp
  have p2: "bucket_pos cs h2 (snd k2) = bucket_pos cs h1 (snd k2)"
    using st2(2) by (rule bucket_pos_cong)
  have e1: "\<lparr>key = k1, value = v1\<rparr> \<in> set (live (buckets h1 ! bucket_pos cs h1 (snd k2)))"
    using st1(1) p1 by simp
  have k1: "snd (key \<lparr>key = k1, value = v1\<rparr>) = snd k2" using same by simp
  note pr = hash_add_present [OF inv1 e1 k1 a2]
  show "f2 = (if free_value h \<noteq> NULL then [v1] else [])"
    using pr(1) st1(3) by simp
  show "hash_get_count h2 = hash_get_count h1"
    using pr(2) by (simp add: hash_get_count_def)
  have e2: "\<lparr>key = k2, value = v2\<rparr> \<in> set (live (buckets h2 ! bucket_pos cs h2 (snd k2)))"
    using st2(1) p2 by simp
  have "hash_find cs h2 k2 = (value \<lparr>key = k2, value = v2\<rparr>, h2, [])"
    using inv2 e2 by (rule hash_find_present) simp
  then show "hash_find cs h2 k2 = (v2, h2, [])" by simp
  have "bucket_pos cs h2 (snd k2) < length (buckets h2)" using inv2 by (rule hash_inv_bucket)
  then have m: "\<lparr>key = k2, value = v2\<rparr> \<in> set (hash_entries h2)"
    using e2 by (rule live_in_hash_entries)
  have "distinct (map (\<lambda>e. snd (key e)) (hash_entries h2))"
    using distinct_hash_keys [OF inv2] by (simp add: hash_keys_def)
  then have "filter (\<lambda>e. snd (key e) = snd (key \<lparr>key = k2, value = v2\<rparr>)) (hash_entries h2)
             = [\<lparr>key = k2, value = v2\<rparr>]"
    using m by (rule filter_distinct_key)
  then show "filter (\<lambda>e. snd (key e) = snd k2) (hash_entries h2) = [\<lparr>key = k2, value = v2\<rparr>]"
    by simp
qed

lemma table_ab_owned_inv: "hash_inv True table_ab_owned"
  unfolding table_ab_owned_def by (rule hash_inv_build)

lemma table_ab_owned_absent: "snd key_c \<notin> set (hash_keys table_ab_owned)"
  by (simp add: table_ab_owned_value hash_keys_def hash_entries_def live_def array_of_def
      key_a_def key_b_def key_c_def)

theorem hash_add_twice_witness:
  "hash_inv True table_ab_owned \<and> snd (302 :: ptr, [0x63 :: byte]) = snd key_c
   \<and> snd key_c \<notin> set (hash_keys table_ab_owned)
   \<and> fst (hash_add True True table_ab_owned key_c 3) = Inr ()
   \<and> snd (snd (hash_add True True table_ab_owned key_c 3)) = []
   \<and> fst (hash_add True True (fst (snd (hash_add True True table_ab_owned key_c 3)))
        (302, [0x63]) 5) = Inr ()
   \<and> snd (snd (hash_add True True (fst (snd (hash_add True True table_ab_owned key_c 3)))
        (302, [0x63]) 5)) = [3]
   \<and> fst (hash_find True
        (fst (snd (hash_add True True (fst (snd (hash_add True True table_ab_owned key_c 3)))
           (302, [0x63]) 5))) (302, [0x63])) = 5"
proof -
  let ?o1 = "hash_add True True table_ab_owned key_c 3"
  let ?o2 = "hash_add True True (fst (snd ?o1)) (302, [0x63]) 5"
  have s: "snd (302 :: ptr, [0x63 :: byte]) = snd key_c" by (simp add: key_c_def)
  have c1: "?o1 = (fst ?o1, fst (snd ?o1), snd (snd ?o1))" by simp
  have c2: "?o2 = (fst ?o2, fst (snd ?o2), snd (snd ?o2))" by simp
  have fv: "free_value table_ab_owned = 7" by (simp add: table_ab_owned_value)
  show ?thesis
    using hash_add_twice [OF table_ab_owned_inv s c1 c2] table_ab_owned_inv s fv
      table_ab_owned_absent
    by simp
qed

text \<open>
  Two calls need not succeed. The one-bucket table holding "a", "b" and "c" has
  \<open>used = 3\<close> and \<open>total = 4\<close>, so \<open>hash_add\<close> must grow the array first; when \<^verbatim>\<open>realloc\<close>
  fails, both calls for the key "c" return \<open>-ENOMEM\<close> and \<open>hash_find\<close> still returns the
  old value 3, not the second value 6. And on a table that already holds "a" with value
  1 and has a destructor, two successful calls for "a" run the destructor twice: the
  first on the old value 1, the second on the first value 5.
\<close>

theorem hash_add_twice_counterexample:
  "hash_add True False table_abc (302, [0x63]) 5 = (Inl ENOMEM, table_abc, [])
   \<and> hash_add True False table_abc (302, [0x63]) 6 = (Inl ENOMEM, table_abc, [])
   \<and> hash_find True table_abc (302, [0x63]) = (3, table_abc, [])
   \<and> fst (hash_add True True table_ab_owned key_a2 5) = Inr ()
   \<and> snd (snd (hash_add True True table_ab_owned key_a2 5)) = [1]
   \<and> fst (hash_add True True (fst (snd (hash_add True True table_ab_owned key_a2 5)))
        key_a 6) = Inr ()
   \<and> snd (snd (hash_add True True (fst (snd (hash_add True True table_ab_owned key_a2 5)))
        key_a 6)) = [5]"
proof -
  have p': "bucket_pos True table_abc [0x63] = 0"
    using hash_inv_bucket(1) [OF table_abc_facts(1), of "[0x63]"]
    by (simp add: table_abc_value)
  then have p: "bucket_pos True table_abc (snd (302 :: ptr, [0x63 :: byte])) = 0" by simp
  have full: "total (buckets table_abc ! bucket_pos True table_abc (snd (302 :: ptr, [0x63 :: byte])))
                \<le> used (buckets table_abc
                          ! bucket_pos True table_abc (snd (302 :: ptr, [0x63 :: byte]))) + 1
              \<and> \<not> False"
    unfolding p by (simp add: table_abc_value)
  have n5: "hash_add True False table_abc (302, [0x63]) 5 = (Inl ENOMEM, table_abc, [])"
    using full by (rule hash_add_result(1))
  have n6: "hash_add True False table_abc (302, [0x63]) 6 = (Inl ENOMEM, table_abc, [])"
    using full by (rule hash_add_result(1))
  have m: "\<lparr>key = key_c, value = 3\<rparr>
        \<in> set (live (buckets table_abc ! bucket_pos True table_abc (snd (302 :: ptr, [0x63 :: byte]))))"
    unfolding p by (simp add: table_abc_value live_def array_of_def)
  have kc: "snd (key \<lparr>key = key_c, value = 3\<rparr>) = snd (302 :: ptr, [0x63 :: byte])"
    by (simp add: key_c_def)
  have "hash_find True table_abc (302, [0x63])
             = (value \<lparr>key = key_c, value = 3\<rparr>, table_abc, [])"
    using table_abc_facts(1) m kc by (rule hash_find_present)
  then have f: "hash_find True table_abc (302, [0x63]) = (3, table_abc, [])" by simp
  let ?o1 = "hash_add True True table_ab_owned key_a2 5"
  let ?o2 = "hash_add True True (fst (snd ?o1)) key_a 6"
  have r1: "fst ?o1 = Inr ()" by (rule hash_add_result) simp
  have r2: "fst ?o2 = Inr ()" by (rule hash_add_result) simp
  have c1: "?o1 = (Inr (), fst (snd ?o1), snd (snd ?o1))" using r1 by (metis prod.collapse)
  have c2: "?o2 = (Inr (), fst (snd ?o2), snd (snd ?o2))" using r2 by (metis prod.collapse)
  have fv: "free_value table_ab_owned = 7" by (simp add: table_ab_owned_value)
  have ka: "snd key_a2 = snd key_a" by (simp add: key_a2_def key_a_def)
  have "\<lparr>key = key_a, value = 1\<rparr>
        \<in> set (live (buckets table_ab_owned ! bucket_pos True table_ab_owned (snd key_a2)))"
    unfolding ka table_ab_owned_pos(2) by (simp add: table_ab_owned_value live_def array_of_def)
  then have f1: "snd (snd ?o1) = [1]"
    using hash_add_present(1) [OF table_ab_owned_inv _ _ c1, of "\<lparr>key = key_a, value = 1\<rparr>"] fv ka
    by simp
  have inv1: "hash_inv True (fst (snd ?o1))" using table_ab_owned_inv c1 by (rule hash_add_inv)
  note st = hash_add_stores [OF table_ab_owned_inv c1]
  have "bucket_pos True (fst (snd ?o1)) (snd key_a) = bucket_pos True table_ab_owned (snd key_a2)"
    using bucket_pos_cong [OF st(2)] ka by simp
  then have "\<lparr>key = key_a2, value = 5\<rparr>
        \<in> set (live (buckets (fst (snd ?o1)) ! bucket_pos True (fst (snd ?o1)) (snd key_a)))"
    using st(1) by simp
  then have f2: "snd (snd ?o2) = [5]"
    using hash_add_present(1) [OF inv1 _ _ c2, of "\<lparr>key = key_a2, value = 5\<rparr>"] fv ka st(3)
    by simp
  show ?thesis using n5 n6 f r1 r2 f1 f2 by simp
qed

lemma next_used_bucket_stop:
  "\<not> i < n_buckets h \<Longrightarrow> next_used_bucket h i = i"
  "i < n_buckets h \<Longrightarrow> used (buckets h ! i) > 0 \<Longrightarrow> next_used_bucket h i = i"
  by (subst next_used_bucket.simps, simp)+

lemma next_used_bucket_skip:
  "i < n_buckets h \<Longrightarrow> used (buckets h ! i) = 0
   \<Longrightarrow> next_used_bucket h i = next_used_bucket h (i + 1)"
  by (subst next_used_bucket.simps) simp

lemma next_used_bucket_spec:
  "n_buckets h = length (buckets h) \<Longrightarrow>
   \<forall>b \<in> set (buckets h). length (live b) = used b \<Longrightarrow>
   i \<le> n_buckets h \<Longrightarrow>
   next_used_bucket h i \<le> n_buckets h
   \<and> (next_used_bucket h i < n_buckets h \<longrightarrow> used (buckets h ! next_used_bucket h i) > 0)
   \<and> concat (map live (drop (next_used_bucket h i) (buckets h)))
       = concat (map live (drop i (buckets h)))"
proof (induction h i rule: next_used_bucket.induct)
  case (1 h i)
  show ?case
  proof (cases "i < n_buckets h")
    case False
    then have "next_used_bucket h i = i" by (rule next_used_bucket_stop)
    then show ?thesis using "1.prems"(3) False by simp
  next
    case True
    show ?thesis
    proof (cases "used (buckets h ! i) > 0")
      case pos: True
      have "next_used_bucket h i = i" using True pos by (rule next_used_bucket_stop)
      then show ?thesis using True pos by simp
    next
      case zero: False
      then have u0: "used (buckets h ! i) = 0" by simp
      have st: "next_used_bucket h i = next_used_bucket h (i + 1)"
        using True u0 by (rule next_used_bucket_skip)
      have il: "i < length (buckets h)" using True "1.prems"(1) by simp
      then have "buckets h ! i \<in> set (buckets h)" by simp
      then have "length (live (buckets h ! i)) = 0" using "1.prems"(2) u0 by metis
      then have "live (buckets h ! i) = []" by simp
      moreover have "drop i (buckets h) = buckets h ! i # drop (i + 1) (buckets h)"
        using il by (simp add: Cons_nth_drop_Suc)
      ultimately have c: "concat (map live (drop i (buckets h)))
                          = concat (map live (drop (i + 1) (buckets h)))"
        by simp
      have "i + 1 \<le> n_buckets h" using True by simp
      then show ?thesis
        using "1.IH" [OF True zero "1.prems"(1,2)] st c by simp
    qed
  qed
qed

lemma hash_iter_next_same:
  assumes "entry it + 1 < int (used (buckets h ! bucket it))"
  shows "hash_iter_next h it =
     (Some (key (array_of (entries (buckets h ! bucket it)) ! nat (entry it + 1)),
            value (array_of (entries (buckets h ! bucket it)) ! nat (entry it + 1))),
      it\<lparr>entry := entry it + 1\<rparr>)"
  using assms by (simp add: hash_iter_next_def Let_def)

lemma hash_iter_next_end:
  assumes "\<not> entry it + 1 < int (used (buckets h ! bucket it))"
    and "next_used_bucket h (bucket it + 1) \<ge> n_buckets h"
  shows "fst (hash_iter_next h it) = None"
  using assms by (simp add: hash_iter_next_def Let_def)

lemma hash_iter_next_bucket:
  assumes "\<not> entry it + 1 < int (used (buckets h ! bucket it))"
    and "next_used_bucket h (bucket it + 1) < n_buckets h"
  shows "hash_iter_next h it =
     (Some (key (array_of (entries (buckets h ! next_used_bucket h (bucket it + 1))) ! 0),
            value (array_of (entries (buckets h ! next_used_bucket h (bucket it + 1))) ! 0)),
      it\<lparr>entry := 0, bucket := next_used_bucket h (bucket it + 1)\<rparr>)"
  using assms by (simp add: hash_iter_next_def Let_def)

lemma iterate_None: "fst (hash_iter_next h it) = None \<Longrightarrow> iterate h it = []"
  by (subst iterate.simps) (auto split: prod.splits)

lemma iterate_Some:
  "hash_iter_next h it = (Some kv, it') \<Longrightarrow> iterate h it = kv # iterate h it'"
  by (subst iterate.simps) simp

lemma live_nth: "i < used b \<Longrightarrow> live b ! i = array_of (entries b) ! i"
  by (simp add: live_def)

lemma iterate_from:
  "n_buckets h = length (buckets h) \<Longrightarrow>
   \<forall>b \<in> set (buckets h). length (live b) = used b \<Longrightarrow>
   bucket it < n_buckets h \<Longrightarrow> - 1 \<le> entry it \<Longrightarrow>
   entry it < int (used (buckets h ! bucket it)) \<Longrightarrow>
   iterate h it =
     map (\<lambda>e. (key e, value e)) (drop (nat (entry it + 1)) (live (buckets h ! bucket it)))
     @ map (\<lambda>e. (key e, value e)) (concat (map live (drop (bucket it + 1) (buckets h))))"
proof (induction h it rule: iterate.induct)
  case (1 h it)
  let ?b = "buckets h ! bucket it"
  let ?kv = "\<lambda>e. (key e, value e)"
  let ?rest = "\<lambda>i. map ?kv (concat (map live (drop i (buckets h))))"
  have bl: "bucket it < length (buckets h)" using "1.prems"(1,3) by simp
  then have lb: "length (live ?b) = used ?b" using "1.prems"(2) by simp
  show ?case
  proof (cases "entry it + 1 < int (used ?b)")
    case True
    define e' where "e' = nat (entry it + 1)"
    have e': "e' < used ?b" "int e' = entry it + 1" using True "1.prems"(4) by (simp_all add: e'_def)
    let ?y = "it\<lparr>entry := entry it + 1\<rparr>"
    have nx: "hash_iter_next h it = (Some (?kv (array_of (entries ?b) ! e')), ?y)"
      using hash_iter_next_same [OF True] by (simp add: e'_def)
    have "iterate h ?y =
            map ?kv (drop (nat (entry ?y + 1)) (live (buckets h ! bucket ?y)))
            @ ?rest (bucket ?y + 1)"
      using "1.prems"(3,4) True
      by - (rule "1.IH" [OF nx [symmetric] refl "1.prems"(1,2)], simp_all)
    moreover have "nat (entry ?y + 1) = Suc e'" using e'(2) by simp
    ultimately have ih: "iterate h ?y = map ?kv (drop (Suc e') (live ?b)) @ ?rest (bucket it + 1)"
      by simp
    have "drop e' (live ?b) = live ?b ! e' # drop (Suc e') (live ?b)"
      using e'(1) lb by (simp add: Cons_nth_drop_Suc)
    then have "map ?kv (drop e' (live ?b)) = map ?kv (live ?b ! e' # drop (Suc e') (live ?b))"
      by (rule arg_cong)
    then have "?kv (live ?b ! e') # map ?kv (drop (Suc e') (live ?b)) = map ?kv (drop e' (live ?b))"
      by simp
    moreover have "live ?b ! e' = array_of (entries ?b) ! e'" using e'(1) by (rule live_nth)
    ultimately show ?thesis
      unfolding iterate_Some [OF nx] ih e'_def [symmetric] by simp
  next
    case False
    then have full: "nat (entry it + 1) = used ?b" using "1.prems"(5) by simp
    then have d: "drop (nat (entry it + 1)) (live ?b) = []" using lb by simp
    define j where "j = next_used_bucket h (bucket it + 1)"
    have "bucket it + 1 \<le> n_buckets h" using "1.prems"(3) by simp
    from next_used_bucket_spec [OF "1.prems"(1,2) this]
    have j: "j \<le> n_buckets h" "j < n_buckets h \<longrightarrow> used (buckets h ! j) > 0"
      "concat (map live (drop j (buckets h))) = concat (map live (drop (bucket it + 1) (buckets h)))"
      by (simp_all add: j_def)
    show ?thesis
    proof (cases "j < n_buckets h")
      case jn: False
      then have "j = length (buckets h)" using j(1) "1.prems"(1) by simp
      then have "?rest (bucket it + 1) = []" using j(3) by simp
      moreover have "iterate h it = []"
        using False jn by (intro iterate_None hash_iter_next_end) (simp_all add: j_def)
      ultimately show ?thesis using d by simp
    next
      case jn: True
      let ?bj = "buckets h ! j"
      let ?y = "it\<lparr>entry := 0, bucket := j\<rparr>"
      have uj: "used ?bj > 0" using j(2) jn by simp
      have jl: "j < length (buckets h)" using jn "1.prems"(1) by simp
      then have lj: "length (live ?bj) = used ?bj" using "1.prems"(2) by simp
      have nx: "hash_iter_next h it = (Some (?kv (array_of (entries ?bj) ! 0)), ?y)"
        using hash_iter_next_bucket [OF False jn [unfolded j_def]] by (simp add: j_def)
      have "iterate h ?y =
              map ?kv (drop (nat (entry ?y + 1)) (live (buckets h ! bucket ?y)))
              @ ?rest (bucket ?y + 1)"
        using jn uj
        by - (rule "1.IH" [OF nx [symmetric] refl "1.prems"(1,2)], simp_all)
      then have ih: "iterate h ?y = map ?kv (drop (Suc 0) (live ?bj)) @ ?rest (j + 1)"
        by simp
      have "live ?bj = live ?bj ! 0 # drop (Suc 0) (live ?bj)"
        using uj lj by (simp add: Cons_nth_drop_Suc)
      then have "map ?kv (live ?bj) = map ?kv (live ?bj ! 0 # drop (Suc 0) (live ?bj))"
        by (rule arg_cong)
      then have h1: "?kv (live ?bj ! 0) # map ?kv (drop (Suc 0) (live ?bj)) = map ?kv (live ?bj)"
        by simp
      have a0: "live ?bj ! 0 = array_of (entries ?bj) ! 0" using uj by (rule live_nth)
      have "drop j (buckets h) = ?bj # drop (j + 1) (buckets h)"
        using jl by (simp add: Cons_nth_drop_Suc)
      then have "?rest j = map ?kv (live ?bj) @ ?rest (j + 1)" by simp
      then have "?rest (bucket it + 1) = map ?kv (live ?bj) @ ?rest (j + 1)"
        using j(3) by simp
      then show ?thesis
        unfolding iterate_Some [OF nx] ih using d h1 a0 by simp
    qed
  qed
qed

lemma hash_inv_lengths:
  assumes "hash_inv cs h"
  shows "\<forall>b \<in> set (buckets h). length (live b) = used b \<and> sorted_wrt key_lt (live b)"
proof
  fix b assume "b \<in> set (buckets h)"
  then obtain i where i: "i < length (buckets h)" "b = buckets h ! i"
    by (auto simp: in_set_conv_nth)
  have "bucket_inv cs h i b" using assms i by (simp add: hash_inv_def)
  then show "length (live b) = used b \<and> sorted_wrt key_lt (live b)"
    by (auto simp: bucket_inv_def intro: length_live)
qed

lemma is_power2_pos: "is_power2 n \<Longrightarrow> 0 < n"
  by (auto simp: is_power2_def)

lemma length_hash_entries:
  assumes "\<forall>b \<in> set (buckets h). length (live b) = used b"
  shows "length (hash_entries h) = sum_list (map used (buckets h))"
proof -
  have "map (length \<circ> live) (buckets h) = map used (buckets h)"
    using assms by simp
  then have "sum_list (map (length \<circ> live) (buckets h)) = sum_list (map used (buckets h))"
    by (rule arg_cong)
  then show ?thesis by (simp add: hash_entries_def length_concat)
qed

text \<open>
  Claim C4. On a well-formed table, \<open>hash_iter_init\<close> followed by \<open>hash_iter_next\<close> until it
  returns \<^verbatim>\<open>false\<close> yields the pairs of the live entries of bucket 0, then those of bucket
  1, and so on, each bucket's in ascending \<open>strcmp\<close> order of the keys and empty buckets
  contributing nothing; the keys yielded are the keys of the table, none of them twice;
  their number is \<open>hash_get_count\<close>; and on a table without entries the first
  \<open>hash_iter_next\<close> returns \<^verbatim>\<open>false\<close>.
\<close>

theorem iterate_yields_live_entries:
  assumes inv: "hash_inv cs h"
  shows "iterate h (hash_iter_init h)
           = map (\<lambda>e. (key e, value e)) (concat (map live (buckets h)))
         \<and> (\<forall>b \<in> set (buckets h). sorted_wrt key_lt (live b))
         \<and> map (\<lambda>kv. snd (fst kv)) (iterate h (hash_iter_init h)) = hash_keys h
         \<and> distinct (map (\<lambda>kv. snd (fst kv)) (iterate h (hash_iter_init h)))
         \<and> length (iterate h (hash_iter_init h)) = hash_get_count h
         \<and> (hash_get_count h = 0 \<longrightarrow> fst (hash_iter_next h (hash_iter_init h)) = None)"
proof -
  let ?kv = "\<lambda>e. (key e, value e)"
  let ?it = "hash_iter_init h"
  have n: "n_buckets h = length (buckets h)" and p: "is_power2 (n_buckets h)"
    and c: "count h = sum_list (map used (buckets h))"
    using inv unfolding hash_inv_def by blast+
  note ls = hash_inv_lengths [OF inv]
  then have len: "\<forall>b \<in> set (buckets h). length (live b) = used b" by blast
  have n0: "0 < length (buckets h)" using p n is_power2_pos by metis
  have start: "bucket ?it < n_buckets h" "- 1 \<le> entry ?it"
    "entry ?it < int (used (buckets h ! bucket ?it))"
    using n n0 by (simp_all add: hash_iter_init_def)
  have "iterate h ?it =
          map ?kv (drop (nat (entry ?it + 1)) (live (buckets h ! bucket ?it)))
          @ map ?kv (concat (map live (drop (bucket ?it + 1) (buckets h))))"
    using n len start by (rule iterate_from)
  then have "iterate h ?it =
          map ?kv (live (buckets h ! 0)) @ map ?kv (concat (map live (drop 1 (buckets h))))"
    by (simp add: hash_iter_init_def)
  moreover have "buckets h = buckets h ! 0 # drop 1 (buckets h)"
    using n0 by (simp add: Cons_nth_drop_Suc)
  then have "concat (map live (buckets h))
               = live (buckets h ! 0) @ concat (map live (drop 1 (buckets h)))"
    by (metis concat.simps(2) list.simps(9))
  ultimately have a: "iterate h ?it = map ?kv (concat (map live (buckets h)))" by simp
  have k: "map (\<lambda>kv. snd (fst kv)) (iterate h ?it) = hash_keys h"
    unfolding a by (simp add: hash_keys_def hash_entries_def comp_def)
  have d: "distinct (map (\<lambda>kv. snd (fst kv)) (iterate h ?it))"
    unfolding k using inv by (rule distinct_hash_keys)
  have l: "length (iterate h ?it) = hash_get_count h"
    unfolding a using length_hash_entries [OF len] c
    by (simp add: hash_get_count_def hash_entries_def)
  have e: "fst (hash_iter_next h ?it) = None" if "hash_get_count h = 0"
  proof (cases "hash_iter_next h ?it")
    case (Pair x y)
    show ?thesis
    proof (cases x)
      case None
      then show ?thesis using Pair by simp
    next
      case (Some kv)
      then have "iterate h ?it = kv # iterate h y" using Pair by (intro iterate_Some) simp
      then show ?thesis using l that by simp
    qed
  qed
  show ?thesis using a ls k d l e by blast
qed

lemma table_empty_facts:
  "hash_inv True (the (hash_new True 8 NULL))" "hash_get_count (the (hash_new True 8 NULL)) = 0"
proof -
  have s: "hash_new True 8 NULL = Some (the (hash_new True 8 NULL))" by (rule hash_new_the)
  show "hash_inv True (the (hash_new True 8 NULL))" using s by (rule hash_new_inv)
  show "hash_get_count (the (hash_new True 8 NULL)) = 0"
    using hash_new_Some [OF s] by (simp add: hash_get_count_def)
qed

theorem iterate_yields_live_entries_witness:
  "hash_inv True table_ab_owned
   \<and> iterate table_ab_owned (hash_iter_init table_ab_owned) = [(key_b, 2), (key_a, 1)]
   \<and> hash_get_count table_ab_owned = 2
   \<and> hash_inv True (the (hash_new True 8 NULL))
   \<and> hash_get_count (the (hash_new True 8 NULL)) = 0
   \<and> fst (hash_iter_next (the (hash_new True 8 NULL))
        (hash_iter_init (the (hash_new True 8 NULL)))) = None"
proof -
  have v: "map (\<lambda>e. (key e, value e)) (concat (map live (buckets table_ab_owned)))
           = [(key_b, 2), (key_a, 1)]"
    by (simp add: table_ab_owned_value live_def array_of_def)
  have c: "hash_get_count table_ab_owned = 2"
    by (simp add: table_ab_owned_value hash_get_count_def)
  show ?thesis
    using iterate_yields_live_entries [OF table_ab_owned_inv]
      iterate_yields_live_entries [OF table_empty_facts(1)]
      table_ab_owned_inv table_empty_facts v c
    by simp
qed

end
